theory Spec2Isabelle
  imports Main "HOL-Library.Word"
begin

unbundle bit_operations_syntax

section \<open>Machine types\<close>

type_synonym u8 = "8 word"
type_synonym u32 = "32 word"
type_synonym u64 = "64 word"

section \<open>BORE: constants of bore.c\<close>

definition BORE_PENALTY_OFFSET :: u32 where
  "BORE_PENALTY_OFFSET = 25"

definition BORE_PENALTY_SCALE :: u32 where
  "BORE_PENALTY_SCALE = 3180"

definition BORE_PENALTY_SHIFT :: u8 where
  "BORE_PENALTY_SHIFT = 12"

definition BORE_SMOOTHNESS :: u8 where
  "BORE_SMOOTHNESS = 40"

definition BORE_MAX_PENALTY :: u32 where
  "BORE_MAX_PENALTY = push_bit (unat BORE_PENALTY_SHIFT) 40 - 1"

definition BORE_CACHE_LIFETIME :: u64 where
  "BORE_CACHE_LIFETIME = 100000000"

section \<open>BORE: the burst penalty calculator\<close>

text \<open>
  Modelled from the spec: \<open>fls64\<close> (kernel bitops, not part of bore.c)
  is "the position of the highest set bit (0 if input is 0)", counted from 1:
  the number of binary digits of the value.
\<close>

fun bit_len :: "nat \<Rightarrow> nat" where
  "bit_len n = (if n = 0 then 0 else Suc (bit_len (n div 2)))"

declare bit_len.simps [simp del]

definition fls64 :: "u64 \<Rightarrow> nat" where
  "fls64 v = bit_len (unat v)"

text \<open>
  \<open>log2p1_u64_u32fp\<close>, bore.c lines 32-39. The shifts act on the 64-bit value; the
  cast to \<open>u32\<close> keeps the low 32 bits; \<open><<\<close> binds tighter than \<open>|\<close>.
\<close>

definition log2p1_u64_u32fp :: "u64 \<Rightarrow> u8 \<Rightarrow> u32" where
  "log2p1_u64_u32fp v fp =
     (if v = 0 then 0
      else
        let exponent = (of_nat (fls64 v) :: u32);
            mantissa = (ucast (drop_bit (64 - unat fp)
                          (push_bit 1 (push_bit (64 - unat exponent) v))) :: u32)
        in push_bit (unat fp) exponent OR mantissa)"

text \<open>
  \<open>calc_burst_penalty\<close>, bore.c lines 41-51. The four locals are \<open>s32\<close>:
  \<open>max_t(s32, 0, x)\<close> compares signed, \<open>>>\<close> on a signed value is the arithmetic
  shift, and \<open>min_t(u32, a, b)\<close> compares unsigned.
\<close>

definition calc_burst_penalty :: "u64 \<Rightarrow> u32" where
  "calc_burst_penalty burst_time =
     (let greed = log2p1_u64_u32fp burst_time BORE_PENALTY_SHIFT;
          tolerance = push_bit (unat BORE_PENALTY_SHIFT) BORE_PENALTY_OFFSET;
          penalty = (if 0 <s greed - tolerance then greed - tolerance else 0);
          scaled_penalty = signed_drop_bit 10 (penalty * BORE_PENALTY_SCALE)
      in min BORE_MAX_PENALTY scaled_penalty)"


section \<open>BORE: data model\<close>

text \<open>
  \<open>struct sched_burst_cache\<close> and the BORE fields of \<open>struct sched_entity\<close>. The
  structure declarations are not part of bore.c; the field types are those the
  functions of bore.c give them (\<open>u64 burst_time\<close>, \<open>u32\<close> penalties, \<open>u8\<close> score
  and count, caches of \<open>u32 value\<close>, \<open>u32 count\<close>, \<open>u64 timestamp\<close>). Besides the
  BORE fields the entity carries what bore.c reads or writes of the host's entity:
  \<open>deadline\<close>, \<open>vruntime\<close>, \<open>load.weight\<close>, \<open>load.inv_weight\<close>, \<open>avg.util_est\<close>, and
  the outcome of the macro \<open>entity_is_task\<close>.
\<close>

record sched_burst_cache =
  bc_value :: u32
  bc_count :: u32
  bc_timestamp :: u64

record sched_entity =
  burst_time :: u64
  prev_burst_penalty :: u32
  curr_burst_penalty :: u32
  burst_penalty :: u32
  burst_score :: u8
  burst_count :: u8
  child_burst :: sched_burst_cache
  group_burst :: sched_burst_cache
  deadline :: u64
  vruntime :: u64
  load_weight :: u64
  load_inv_weight :: u32
  avg_util_est :: u32
  entity_is_task :: bool

datatype sched_class =
  fair_sched_class | rt_sched_class | dl_sched_class | idle_sched_class | stop_sched_class

text \<open>
  A CPU mask is the set of CPU numbers whose bit is set; CPU numbers range over
  \<open>0 ..< nr_cpu_ids\<close>.
\<close>

type_synonym cpumask = "nat \<Rightarrow> bool"

text \<open>
  \<open>struct task_struct\<close>, as far as bore.c and sss.c use it. Tasks are referred to by
  number (the pointer); task pointers handed to the functions are valid, so the
  \<open>NULL\<close> test of \<open>bore_task_is_eligible\<close> always passes. \<open>children\<close> is the list walked
  by \<open>bore_for_each_child\<close>, \<open>thread_group\<close> the one walked by \<open>for_each_thread\<close>, and
  \<open>on_rq_queued\<close> the outcome of \<open>task_on_rq_queued\<close>.
\<close>

record task_struct =
  static_prio :: "32 word"
  normal_prio :: "32 word"
  flags :: u32
  exit_state :: "32 word"
  task_class :: sched_class
  se :: sched_entity
  children :: "nat list"
  real_parent :: nat
  group_leader :: nat
  thread_group :: "nat list"
  cpus_ptr :: cpumask
  nr_cpus_allowed :: "32 word"
  on_rq_queued :: bool

type_synonym tasks = "nat \<Rightarrow> task_struct"

text \<open>
  What the two files use of the rest of the kernel and do not define themselves:
  constants and flag bits of the headers, the two priority tables, the macro
  \<open>scale_load\<close>, and the functions \<open>reweight_entity\<close> (its effect on the entity) and
  \<open>mul_u64_u32_shr\<close>. They are parameters of the model.
\<close>

record kernel =
  MAX_RT_PRIO :: "32 word"
  PF_KTHREAD :: u32
  PF_EXITING :: u32
  CLONE_PARENT :: u64
  CLONE_THREAD :: u64
  WF_EXEC :: "32 word"
  WF_FORK :: "32 word"
  WF_TTWU :: "32 word"
  WF_SYNC :: "32 word"
  WF_CURRENT_CPU :: "32 word"
  UTIL_AVG_UNCHANGED :: u32
  SCHED_CAPACITY_SCALE :: u64
  sched_prio_to_weight :: "u8 \<Rightarrow> 32 word"
  sched_prio_to_wmult :: "u8 \<Rightarrow> u32"
  scale_load :: "32 word \<Rightarrow> u64"
  reweight_entity :: "sched_entity \<Rightarrow> u64 \<Rightarrow> sched_entity"
  mul_u64_u32_shr :: "u64 \<Rightarrow> u32 \<Rightarrow> nat \<Rightarrow> u64"

section \<open>BORE: the burst state machine\<close>

text \<open>The macros \<open>bore_scale_slice\<close> and \<open>bore_unscale_slice\<close>, bore.c lines 20-24.\<close>

definition bore_scale_slice :: "kernel \<Rightarrow> u64 \<Rightarrow> u8 \<Rightarrow> u64" where
  "bore_scale_slice K delta score = mul_u64_u32_shr K delta (sched_prio_to_wmult K score) 22"

definition bore_unscale_slice :: "kernel \<Rightarrow> u64 \<Rightarrow> u8 \<Rightarrow> u64" where
  "bore_unscale_slice K delta score =
     mul_u64_u32_shr K delta (ucast (sched_prio_to_weight K score)) 10"

text \<open>\<open>bore_task_is_eligible\<close>, bore.c lines 26-27.\<close>

definition bore_task_is_eligible :: "task_struct \<Rightarrow> bool" where
  "bore_task_is_eligible p \<longleftrightarrow> task_class p = fair_sched_class \<and> exit_state p = 0"

text \<open>\<open>bore_cache_expired\<close>, bore.c lines 29-30: a signed 64-bit comparison.\<close>

definition bore_cache_expired :: "sched_burst_cache \<Rightarrow> u64 \<Rightarrow> bool" where
  "bore_cache_expired bc now \<longleftrightarrow> bc_timestamp bc + BORE_CACHE_LIFETIME - now <s 0"

text \<open>\<open>reweight_task_by_prio\<close>, bore.c lines 53-60.\<close>

definition reweight_task_by_prio :: "kernel \<Rightarrow> task_struct \<Rightarrow> u8 \<Rightarrow> task_struct" where
  "reweight_task_by_prio K p prio =
     (let weight = scale_load K (sched_prio_to_weight K prio);
          se1 = reweight_entity K (se p) weight
      in p\<lparr>se := se1\<lparr>load_inv_weight := sched_prio_to_wmult K prio\<rparr>\<rparr>)"

text \<open>\<open>effective_prio\<close>, bore.c lines 62-67: all arithmetic is on \<open>u8\<close>.\<close>

definition effective_prio :: "kernel \<Rightarrow> task_struct \<Rightarrow> u8" where
  "effective_prio K p =
     (let prio = (ucast (static_prio p - MAX_RT_PRIO K) :: u8);
          prio = prio + burst_score (se p)
      in min 39 prio)"

text \<open>
  \<open>update_burst_score\<close>, bore.c lines 69-84. The entity is given by the task that
  contains it (\<open>task_of\<close>); for an entity that is not a task nothing else of the
  container is read.
\<close>

definition update_burst_score :: "kernel \<Rightarrow> task_struct \<Rightarrow> task_struct" where
  "update_burst_score K p =
     (if \<not> entity_is_task (se p) then p
      else
        let prev_prio = effective_prio K p;
            score = (if flags p AND PF_KTHREAD K = 0
                     then (ucast (drop_bit (unat BORE_PENALTY_SHIFT) (burst_penalty (se p))) :: u8)
                     else 0);
            p1 = p\<lparr>se := (se p)\<lparr>burst_score := score\<rparr>\<rparr>;
            new_prio = effective_prio K p1
        in if new_prio \<noteq> prev_prio then reweight_task_by_prio K p1 new_prio else p1)"

text \<open>
  \<open>update_curr_bore\<close>, bore.c lines 86-99. The division by \<open>burst_count\<close> traps when
  the count is zero: the result is \<open>None\<close> then.
\<close>

definition update_curr_bore :: "kernel \<Rightarrow> u64 \<Rightarrow> task_struct \<Rightarrow> task_struct option" where
  "update_curr_bore K delta_exec p =
     (if \<not> entity_is_task (se p) then Some p
      else
        let s1 = (se p)\<lparr>burst_time := burst_time (se p) + delta_exec\<rparr>;
            s2 = s1\<lparr>curr_burst_penalty := calc_burst_penalty (burst_time s1)\<rparr>
        in if prev_burst_penalty s2 < curr_burst_penalty s2
           then (if burst_count s2 = 0 then None
                 else Some (update_burst_score K
                   (p\<lparr>se := s2\<lparr>burst_penalty :=
                        prev_burst_penalty s2 +
                        (curr_burst_penalty s2 - prev_burst_penalty s2) div
                          ucast (burst_count s2)\<rparr>\<rparr>)))
           else Some (update_burst_score K (p\<lparr>se := s2\<rparr>)))"

text \<open>
  \<open>binary_smooth\<close>, bore.c lines 101-106. Both the division and the remainder trap
  on a zero \<open>dumper\<close>.
\<close>

definition binary_smooth :: "u32 \<Rightarrow> u32 \<Rightarrow> u8 \<Rightarrow> u32 option" where
  "binary_smooth new old dumper =
     (if dumper = 0 then None
      else
        let abs_diff = (if old < new then new - old else old - new);
            adj_diff = abs_diff div ucast dumper +
                       (if abs_diff mod ucast dumper \<noteq> 0 then 1 else 0)
        in Some (if old < new then old + adj_diff else old - adj_diff))"

text \<open>\<open>__restart_burst\<close>, bore.c lines 108-120.\<close>

definition restart_burst_raw :: "sched_entity \<Rightarrow> sched_entity option" where
  "restart_burst_raw s =
     (case binary_smooth (curr_burst_penalty s) (prev_burst_penalty s) (burst_count s) of
        None \<Rightarrow> None
      | Some v \<Rightarrow>
          Some (s\<lparr>prev_burst_penalty := v,
                  burst_time := 0,
                  curr_burst_penalty := 0,
                  burst_count := (if burst_count s < BORE_SMOOTHNESS
                                  then burst_count s + 1 else BORE_SMOOTHNESS)\<rparr>))"

text \<open>\<open>restart_burst\<close>, bore.c lines 122-127.\<close>

definition restart_burst :: "kernel \<Rightarrow> task_struct \<Rightarrow> task_struct option" where
  "restart_burst K p =
     (case restart_burst_raw (se p) of
        None \<Rightarrow> None
      | Some s \<Rightarrow>
          Some (update_burst_score K (p\<lparr>se := s\<lparr>burst_penalty := prev_burst_penalty s\<rparr>\<rparr>)))"

text \<open>
  \<open>restart_burst_rescale_deadline\<close>, bore.c lines 129-144. \<open>vremain\<close> is read before
  the restart; \<open>abs\<close> and the sign test are on \<open>s64\<close>.
\<close>

definition restart_burst_rescale_deadline :: "kernel \<Rightarrow> task_struct \<Rightarrow> task_struct option" where
  "restart_burst_rescale_deadline K p =
     (let vremain = deadline (se p) - vruntime (se p);
          prev_prio = effective_prio K p
      in case restart_burst K p of
           None \<Rightarrow> None
         | Some p1 \<Rightarrow>
             let new_prio = effective_prio K p1
             in if new_prio < prev_prio
                then
                  let wremain = bore_unscale_slice K
                                  (if vremain <s 0 then - vremain else vremain) prev_prio;
                      vscaled = bore_scale_slice K wremain new_prio;
                      vscaled = (if vremain <s 0 then - vscaled else vscaled)
                  in Some (p1\<lparr>se := (se p1)\<lparr>deadline := vruntime (se p1) + vscaled\<rparr>\<rparr>)
                else Some p1)"

section \<open>BORE: the inheritance cache and fork\<close>

text \<open>\<open>update_burst_cache\<close>, bore.c lines 146-154.\<close>

definition update_burst_cache ::
  "sched_burst_cache \<Rightarrow> task_struct \<Rightarrow> u32 \<Rightarrow> u32 \<Rightarrow> u64 \<Rightarrow> sched_burst_cache" where
  "update_burst_cache bc p cnt sm now =
     (let avg = (if cnt \<noteq> 0 then sm div cnt else 0)
      in bc\<lparr>bc_value := max avg (burst_penalty (se p)), bc_count := cnt, bc_timestamp := now\<rparr>)"

text \<open>
  The loop shared by \<open>update_child_burst_direct\<close> and \<open>update_tg_burst\<close>: count the
  eligible tasks of a list and sum their penalties, both in \<open>u32\<close>.
\<close>

fun burst_sum :: "tasks \<Rightarrow> nat list \<Rightarrow> u32 \<times> u32 \<Rightarrow> u32 \<times> u32" where
  "burst_sum S [] acc = acc"
| "burst_sum S (t # ts) (cnt, sm) =
     (if \<not> bore_task_is_eligible (S t) then burst_sum S ts (cnt, sm)
      else burst_sum S ts (cnt + 1, sm + burst_penalty (se (S t))))"

text \<open>\<open>update_child_burst_direct\<close>, bore.c lines 156-169.\<close>

definition update_child_burst_direct :: "tasks \<Rightarrow> nat \<Rightarrow> u64 \<Rightarrow> tasks" where
  "update_child_burst_direct S p now =
     (let (cnt, sm) = burst_sum S (children (S p)) (0, 0)
      in S(p := (S p)\<lparr>se := (se (S p))\<lparr>child_burst :=
             update_burst_cache (child_burst (se (S p))) (S p) cnt sm now\<rparr>\<rparr>))"

text \<open>\<open>inherit_burst_direct\<close>, bore.c lines 171-185.\<close>

definition inherit_burst_direct :: "kernel \<Rightarrow> tasks \<Rightarrow> nat \<Rightarrow> u64 \<Rightarrow> u64 \<Rightarrow> tasks \<times> u32" where
  "inherit_burst_direct K S p now clone_flags =
     (let parent = (if clone_flags AND CLONE_PARENT K \<noteq> 0 then real_parent (S p) else p);
          S1 = (if bore_cache_expired (child_burst (se (S parent))) now
                then update_child_burst_direct S parent now else S)
      in (S1, bc_value (child_burst (se (S1 parent)))))"

text \<open>\<open>update_tg_burst\<close>, bore.c lines 187-200.\<close>

definition update_tg_burst :: "tasks \<Rightarrow> nat \<Rightarrow> u64 \<Rightarrow> tasks" where
  "update_tg_burst S p now =
     (let (cnt, sm) = burst_sum S (thread_group (S p)) (0, 0)
      in S(p := (S p)\<lparr>se := (se (S p))\<lparr>group_burst :=
             update_burst_cache (group_burst (se (S p))) (S p) cnt sm now\<rparr>\<rparr>))"

text \<open>\<open>inherit_burst_tg\<close>, bore.c lines 202-211.\<close>

definition inherit_burst_tg :: "tasks \<Rightarrow> nat \<Rightarrow> u64 \<Rightarrow> tasks \<times> u32" where
  "inherit_burst_tg S p now =
     (let parent = group_leader (S p);
          S1 = (if bore_cache_expired (group_burst (se (S parent))) now
                then update_tg_burst S parent now else S)
      in (S1, bc_value (group_burst (se (S1 parent)))))"

text \<open>\<open>sched_clone_bore\<close>, bore.c lines 213-232.\<close>

definition sched_clone_bore :: "kernel \<Rightarrow> tasks \<Rightarrow> nat \<Rightarrow> nat \<Rightarrow> u64 \<Rightarrow> u64 \<Rightarrow> tasks option" where
  "sched_clone_bore K S p parent clone_flags now =
     (if \<not> bore_task_is_eligible (S p) then Some S
      else
        let (S1, penalty) = (if clone_flags AND CLONE_THREAD K \<noteq> 0
                             then inherit_burst_tg S parent now
                             else inherit_burst_direct K S parent now clone_flags)
        in case restart_burst_raw (se (S1 p)) of
             None \<Rightarrow> None
           | Some s \<Rightarrow>
               let v = max (prev_burst_penalty s) penalty
               in Some (S1(p := (S1 p)\<lparr>se := s\<lparr>
                     prev_burst_penalty := v,
                     burst_penalty := v,
                     burst_count := 1,
                     child_burst := (child_burst s)\<lparr>bc_timestamp := 0\<rparr>,
                     group_burst := (group_burst s)\<lparr>bc_timestamp := 0\<rparr>\<rparr>\<rparr>)))"

text \<open>\<open>reset_task_bore\<close>, bore.c lines 234-244.\<close>

definition reset_task_bore :: "task_struct \<Rightarrow> task_struct" where
  "reset_task_bore p =
     p\<lparr>se := (se p)\<lparr>
        burst_time := 0,
        prev_burst_penalty := 0,
        curr_burst_penalty := 0,
        burst_penalty := 0,
        burst_score := 0,
        burst_count := 1,
        child_burst := \<lparr>bc_value = 0, bc_count = 0, bc_timestamp = 0\<rparr>,
        group_burst := \<lparr>bc_value = 0, bc_count = 0, bc_timestamp = 0\<rparr>\<rparr>\<rparr>"


section \<open>SSS: data model\<close>

text \<open>
  Modelled from the spec: the CPU-mask operations of the kernel (cpumask.h, not part
  of sss.c). A mask is a set of CPUs; "candidate set = task's allowed
  CPUs \<open>\<inter>\<close> currently active CPUs", \<open>cpumask_and\<close> tells whether the intersection is
  non-empty, \<open>for_each_cpu\<close> visits the CPUs of a mask in increasing order, and
  \<open>cpumask_first\<close> is "the first CPU named in the set" (\<open>nr_cpu_ids\<close> when there is
  none).
\<close>

definition for_each_cpu :: "nat \<Rightarrow> cpumask \<Rightarrow> nat list" where
  "for_each_cpu nr m = filter m [0..<nr]"

definition cpumask_and :: "cpumask \<Rightarrow> cpumask \<Rightarrow> cpumask" where
  "cpumask_and a b = (\<lambda>c. a c \<and> b c)"

definition cpumask_empty :: "nat \<Rightarrow> cpumask \<Rightarrow> bool" where
  "cpumask_empty nr m \<longleftrightarrow> for_each_cpu nr m = []"

definition cpumask_intersects :: "nat \<Rightarrow> cpumask \<Rightarrow> cpumask \<Rightarrow> bool" where
  "cpumask_intersects nr a b \<longleftrightarrow> \<not> cpumask_empty nr (cpumask_and a b)"

definition cpumask_first :: "nat \<Rightarrow> cpumask \<Rightarrow> nat" where
  "cpumask_first nr m = (case for_each_cpu nr m of [] \<Rightarrow> nr | c # _ \<Rightarrow> c)"

definition cpumask_clear_cpu :: "nat \<Rightarrow> cpumask \<Rightarrow> cpumask" where
  "cpumask_clear_cpu c m = m(c := False)"

text \<open>\<open>struct sss_candidate\<close>, sss.c lines 17-20; \<open>factor\<close> is a \<open>long\<close> (64 bits).\<close>

record sss_candidate =
  factor :: u64
  cpu :: nat

text \<open>
  The state the placement functions read: the globals of sss.c (lines 6-15) and what
  the host provides at the call: the CPU count and the active mask, the calling CPU
  and task (\<open>raw_smp_processor_id\<close>, \<open>current\<close>), the outcome of \<open>wake_wide\<close>, the
  topology masks (\<open>sd_llc\<close> is \<open>None\<close> for a \<open>NULL\<close> domain), and of each run queue
  the three utilisation figures (\<open>cfs.avg.util_est\<close> an \<open>unsigned int\<close>, the two
  \<open>util_avg\<close> an \<open>unsigned long\<close>), the task \<open>curr\<close> (by its \<open>nr_cpus_allowed\<close>, \<open>None\<close>
  for \<open>NULL\<close>) and the task \<open>donor\<close> (by \<open>rt_task\<close> and its \<open>normal_prio\<close>).
\<close>

record sss_state =
  sched_sss_smt_bias :: u32
  sched_sss_llc_bias :: u32
  sss_rt_factor_bank :: "nat \<Rightarrow> 32 word"
  sss_cpu_capacities :: "nat \<Rightarrow> u32"
  sss_hp_mask :: cpumask
  sss_asymmetric :: bool
  nr_cpu_ids :: nat
  cpu_active_mask :: cpumask
  this_cpu :: nat
  current_is_p :: bool
  current_flags :: u32
  wake_wide_p :: bool
  sd_llc :: "nat \<Rightarrow> cpumask option"
  cpu_smt_mask :: "nat \<Rightarrow> cpumask"
  rq_cfs_util_est :: "nat \<Rightarrow> u32"
  rq_avg_rt_util_avg :: "nat \<Rightarrow> u64"
  rq_avg_dl_util_avg :: "nat \<Rightarrow> u64"
  rq_curr :: "nat \<Rightarrow> 32 word option"
  rq_donor :: "nat \<Rightarrow> bool \<times> 32 word"

text \<open>\<open>SSS_FACTOR\<close> and \<open>SSS_MARGIN\<close>, sss.c lines 9-10: shifts of a \<open>long\<close>.\<close>

definition SSS_FACTOR :: "kernel \<Rightarrow> u64" where
  "SSS_FACTOR K = signed_drop_bit 5 (SCHED_CAPACITY_SCALE K)"

definition SSS_MARGIN :: "kernel \<Rightarrow> u64" where
  "SSS_MARGIN K = signed_drop_bit 3 (SCHED_CAPACITY_SCALE K)"

definition UINT_MAX :: u64 where
  "UINT_MAX = 4294967295"

section \<open>SSS: placement of a fair task\<close>

text \<open>
  The body of the loop of \<open>sss_select_task_rq_fair\<close> up to the label \<open>out\<close>, sss.c
  lines 67-118: the factor of one CPU. The arguments after the CPU are the locals
  \<open>p_queued\<close>, \<open>p_affine\<close>, \<open>p_factor\<close> and \<open>llc_mask\<close> computed before the loop.
\<close>

definition fair_factor ::
  "kernel \<Rightarrow> sss_state \<Rightarrow> nat \<Rightarrow> 32 word \<Rightarrow> bool \<Rightarrow> bool \<Rightarrow> u64 \<Rightarrow> cpumask option \<Rightarrow> nat \<Rightarrow> u64" where
  "fair_factor K E prev_cpu wake_flags p_queued p_affine p_factor llc_mask c =
     (let f = (ucast (sss_cpu_capacities E c) :: u64);
          f = f - ucast (rq_cfs_util_est E c);
          f = f - rq_avg_rt_util_avg E c;
          f = f - rq_avg_dl_util_avg E c;
          f = (if p_queued then f - (if c \<noteq> prev_cpu then p_factor else 0)
               else f - p_factor)
      in if wake_flags AND WF_EXEC K \<noteq> 0 then f
         else if f <s SSS_MARGIN K then f
         else
           let f = (if p_affine \<and> (c = this_cpu E \<or> c = prev_cpu)
                    then f + SSS_FACTOR K * 8 else f);
               f = (if \<not> p_affine \<and> wake_flags AND WF_TTWU K \<noteq> 0 \<and> cpu_smt_mask E prev_cpu c
                    then f + SSS_FACTOR K * ucast (sched_sss_smt_bias E) else f);
               f = (case llc_mask of
                      None \<Rightarrow> f
                    | Some m \<Rightarrow> if m c then f + SSS_FACTOR K * ucast (sched_sss_llc_bias E) else f)
           in f)"

text \<open>The comparison at the label \<open>out\<close>, sss.c lines 124-125.\<close>

definition fair_pick :: "(nat \<Rightarrow> u64) \<Rightarrow> nat \<Rightarrow> sss_candidate \<Rightarrow> sss_candidate" where
  "fair_pick f c best =
     (let curr = \<lparr>factor = f c, cpu = c\<rparr>
      in if factor best <s factor curr then curr else best)"

text \<open>
  The locals of \<open>sss_select_task_rq_fair\<close> that the loop uses, sss.c lines 42-64, and
  its two early returns.
\<close>

definition fair_valid :: "sss_state \<Rightarrow> task_struct \<Rightarrow> bool" where
  "fair_valid E p = cpumask_and (cpus_ptr p) (cpu_active_mask E) (this_cpu E)"

definition fair_fast_path :: "kernel \<Rightarrow> sss_state \<Rightarrow> task_struct \<Rightarrow> 32 word \<Rightarrow> bool" where
  "fair_fast_path K E p wake_flags \<longleftrightarrow>
     wake_flags AND WF_TTWU K \<noteq> 0 \<and>
     (wake_flags AND WF_CURRENT_CPU K \<noteq> 0 \<or>
      (wake_flags AND WF_SYNC K \<noteq> 0 \<and> current_flags E AND PF_EXITING K = 0)) \<and>
     fair_valid E p"

definition fair_score :: "kernel \<Rightarrow> sss_state \<Rightarrow> task_struct \<Rightarrow> nat \<Rightarrow> 32 word \<Rightarrow> nat \<Rightarrow> u64" where
  "fair_score K E p prev_cpu wake_flags =
     (let p_affine = (wake_flags AND WF_TTWU K \<noteq> 0 \<and> \<not> wake_wide_p E \<and> fair_valid E p);
          llc_mask = sd_llc E prev_cpu;
          p_factor = (ucast (avg_util_est (se p) AND NOT (UTIL_AVG_UNCHANGED K)) :: u64);
          p_queued = (on_rq_queued p \<or> current_is_p E)
      in fair_factor K E prev_cpu wake_flags p_queued p_affine p_factor llc_mask)"

text \<open>\<open>sss_select_task_rq_fair\<close>, sss.c lines 22-129.\<close>

definition sss_select_task_rq_fair ::
  "kernel \<Rightarrow> sss_state \<Rightarrow> task_struct \<Rightarrow> nat \<Rightarrow> 32 word \<Rightarrow> nat" where
  "sss_select_task_rq_fair K E p prev_cpu wake_flags =
     (let cpus = cpumask_and (cpus_ptr p) (cpu_active_mask E)
      in if cpumask_empty (nr_cpu_ids E) cpus then cpumask_first (nr_cpu_ids E) (cpus_ptr p)
         else if fair_fast_path K E p wake_flags then this_cpu E
         else cpu (fold (fair_pick (fair_score K E p prev_cpu wake_flags))
                     (for_each_cpu (nr_cpu_ids E) cpus)
                     \<lparr>factor = 0, cpu = prev_cpu\<rparr>))"

section \<open>SSS: placement of a real-time task\<close>

text \<open>The mask \<open>cpus\<close> when the loop starts, sss.c lines 146-164.\<close>

definition rt_cpus :: "kernel \<Rightarrow> sss_state \<Rightarrow> task_struct \<Rightarrow> nat \<Rightarrow> 32 word \<Rightarrow> cpumask" where
  "rt_cpus K E p prev_cpu wake_flags =
     (let cpus = cpumask_and (cpus_ptr p) (cpu_active_mask E);
          cpus = (if sss_asymmetric E \<and> cpumask_intersects (nr_cpu_ids E) cpus (sss_hp_mask E)
                  then cpumask_and cpus (sss_hp_mask E) else cpus)
      in if wake_flags AND (WF_TTWU K OR WF_FORK K) \<noteq> 0
         then (case rq_curr E prev_cpu of
                 None \<Rightarrow> cpus
               | Some curtsk_allowed \<Rightarrow>
                   if fst (rq_donor E prev_cpu) \<and>
                      (curtsk_allowed <s 2 \<or> snd (rq_donor E prev_cpu) \<le>s normal_prio p)
                   then cpumask_clear_cpu prev_cpu cpus else cpus)
         else cpus)"

text \<open>The factor of one CPU, sss.c lines 167-177.\<close>

definition rt_score :: "kernel \<Rightarrow> sss_state \<Rightarrow> task_struct \<Rightarrow> nat \<Rightarrow> nat \<Rightarrow> u64" where
  "rt_score K E p prev_cpu c =
     (let p_factor = (scast (MAX_RT_PRIO K - normal_prio p) :: u64);
          f = (scast (sss_rt_factor_bank E c) :: u64)
      in if on_rq_queued p then f + (if c \<noteq> prev_cpu then p_factor else 0)
         else f + p_factor)"

text \<open>The comparison of sss.c lines 182-183.\<close>

definition rt_pick :: "(nat \<Rightarrow> u64) \<Rightarrow> nat \<Rightarrow> sss_candidate \<Rightarrow> sss_candidate" where
  "rt_pick f c best =
     (let curr = \<lparr>factor = f c, cpu = c\<rparr>
      in if factor curr <s factor best then curr else best)"

text \<open>\<open>sss_select_task_rq_rt\<close>, sss.c lines 131-187.\<close>

definition sss_select_task_rq_rt ::
  "kernel \<Rightarrow> sss_state \<Rightarrow> task_struct \<Rightarrow> nat \<Rightarrow> 32 word \<Rightarrow> nat" where
  "sss_select_task_rq_rt K E p prev_cpu wake_flags =
     (if cpumask_empty (nr_cpu_ids E) (cpumask_and (cpus_ptr p) (cpu_active_mask E))
      then cpumask_first (nr_cpu_ids E) (cpus_ptr p)
      else cpu (fold (rt_pick (rt_score K E p prev_cpu))
                  (for_each_cpu (nr_cpu_ids E) (rt_cpus K E p prev_cpu wake_flags))
                  \<lparr>factor = UINT_MAX, cpu = prev_cpu\<rparr>))"

text \<open>
  \<open>sss_rt_add_factor\<close> and \<open>sss_rt_sub_factor\<close>, sss.c lines 189-197: \<open>atomic_add\<close> and
  \<open>atomic_sub\<close> on the 32-bit counter of one CPU, taken as single steps.
\<close>

definition sss_rt_add_factor :: "kernel \<Rightarrow> nat \<Rightarrow> 32 word \<Rightarrow> sss_state \<Rightarrow> sss_state" where
  "sss_rt_add_factor K c prio E =
     E\<lparr>sss_rt_factor_bank := (sss_rt_factor_bank E)
          (c := sss_rt_factor_bank E c + (MAX_RT_PRIO K - prio))\<rparr>"

definition sss_rt_sub_factor :: "kernel \<Rightarrow> nat \<Rightarrow> 32 word \<Rightarrow> sss_state \<Rightarrow> sss_state" where
  "sss_rt_sub_factor K c prio E =
     E\<lparr>sss_rt_factor_bank := (sss_rt_factor_bank E)
          (c := sss_rt_factor_bank E c - (MAX_RT_PRIO K - prio))\<rparr>"


section \<open>Arithmetic reading of the penalty calculator\<close>

text \<open>
  The value of \<open>log2p1_u64_u32fp v 12\<close> and of \<open>calc_burst_penalty v\<close> as functions on
  natural numbers; the proofs below show that the machine code computes them.
\<close>

definition log2p1_nat :: "nat \<Rightarrow> nat" where
  "log2p1_nat n = (if n = 0 then 0
     else bit_len n * 4096 + ((n * 2 ^ (65 - bit_len n)) mod 2 ^ 64) div 2 ^ 52)"

definition penalty_nat :: "nat \<Rightarrow> nat" where
  "penalty_nat n = min 163839 (((log2p1_nat n - 102400) * 3180) div 1024)"


section \<open>Predicates used in the statements\<close>

text \<open>
  The host's \<open>reweight_entity\<close> re-weights the entity; it leaves the BORE fields of
  the entity as they are. The statements about the state machine assume this of the
  parameter.
\<close>

definition reweight_keeps_burst :: "kernel \<Rightarrow> bool" where
  "reweight_keeps_burst K \<longleftrightarrow>
     (\<forall>s w. burst_time (reweight_entity K s w) = burst_time s \<and>
            prev_burst_penalty (reweight_entity K s w) = prev_burst_penalty s \<and>
            curr_burst_penalty (reweight_entity K s w) = curr_burst_penalty s \<and>
            burst_penalty (reweight_entity K s w) = burst_penalty s \<and>
            burst_score (reweight_entity K s w) = burst_score s \<and>
            burst_count (reweight_entity K s w) = burst_count s \<and>
            child_burst (reweight_entity K s w) = child_burst s \<and>
            group_burst (reweight_entity K s w) = group_burst s \<and>
            entity_is_task (reweight_entity K s w) = entity_is_task s)"

text \<open>The three ranges of the data model.\<close>

definition burst_ranges :: "sched_entity \<Rightarrow> bool" where
  "burst_ranges s \<longleftrightarrow>
     burst_penalty s \<le> BORE_MAX_PENALTY \<and> burst_score s \<le> 39 \<and>
     1 \<le> burst_count s \<and> burst_count s \<le> BORE_SMOOTHNESS"

text \<open>
  The ranges together with what makes them inductive: the other two penalties and
  the two cached values are bounded by the maximum penalty as well.
\<close>

definition burst_inv :: "sched_entity \<Rightarrow> bool" where
  "burst_inv s \<longleftrightarrow>
     burst_ranges s \<and>
     prev_burst_penalty s \<le> BORE_MAX_PENALTY \<and>
     curr_burst_penalty s \<le> BORE_MAX_PENALTY \<and>
     bc_value (child_burst s) \<le> BORE_MAX_PENALTY \<and>
     bc_value (group_burst s) \<le> BORE_MAX_PENALTY"

text \<open>
  The invariant of all tasks; the lists of children and of threads are shorter than
  \<open>2^32\<close> (the counter of the aggregation loops is a \<open>u32\<close>).
\<close>

definition tasks_inv :: "tasks \<Rightarrow> bool" where
  "tasks_inv S \<longleftrightarrow>
     (\<forall>t. burst_inv (se (S t)) \<and>
          length (children (S t)) < 2 ^ 32 \<and> length (thread_group (S t)) < 2 ^ 32)"

text \<open>\<open>ceil (a / b)\<close> on natural numbers.\<close>

definition ceil_div :: "nat \<Rightarrow> nat \<Rightarrow> nat" where
  "ceil_div a b = (a + b - 1) div b"

section \<open>A concrete host and concrete tasks\<close>

text \<open>
  An instance of the parameters with the values of the Linux headers, a host
  \<open>reweight_entity\<close> that stores the new weight, and \<open>mul_u64_u32_shr\<close> as the
  128-bit product shifted right; the witnesses below are evaluated on it.
\<close>

definition host0 :: kernel where
  "host0 = \<lparr>MAX_RT_PRIO = 100, PF_KTHREAD = 0x200000, PF_EXITING = 4,
     CLONE_PARENT = 0x8000, CLONE_THREAD = 0x10000,
     WF_EXEC = 2, WF_FORK = 4, WF_TTWU = 8, WF_SYNC = 16, WF_CURRENT_CPU = 64,
     UTIL_AVG_UNCHANGED = 0x80000000, SCHED_CAPACITY_SCALE = 1024,
     sched_prio_to_weight = (\<lambda>prio. 1024), sched_prio_to_wmult = (\<lambda>prio. 4194304),
     scale_load = (\<lambda>w. push_bit 10 (ucast w)),
     reweight_entity = (\<lambda>s w. s\<lparr>load_weight := w\<rparr>),
     mul_u64_u32_shr = (\<lambda>a m sh. of_nat ((unat a * unat m) div 2 ^ sh))\<rparr>"

definition cache0 :: sched_burst_cache where
  "cache0 = \<lparr>bc_value = 0, bc_count = 0, bc_timestamp = 0\<rparr>"

definition entity0 :: sched_entity where
  "entity0 = \<lparr>burst_time = 5000000, prev_burst_penalty = 1000, curr_burst_penalty = 2000,
     burst_penalty = 1500, burst_score = 0, burst_count = 3,
     child_burst = cache0, group_burst = cache0,
     deadline = 0, vruntime = 0, load_weight = 0, load_inv_weight = 0, avg_util_est = 0,
     entity_is_task = True\<rparr>"

definition task0 :: task_struct where
  "task0 = \<lparr>static_prio = 120, normal_prio = 120, flags = 0, exit_state = 0,
     task_class = fair_sched_class, se = entity0, children = [], real_parent = 0,
     group_leader = 0, thread_group = [], cpus_ptr = (\<lambda>c. c < 2), nr_cpus_allowed = 2,
     on_rq_queued = False\<rparr>"

section \<open>Repeated restarts\<close>

text \<open>
  The state after \<open>n\<close> calls of \<open>restart_burst\<close>, where \<open>curr_burst_penalty\<close> holds the
  value \<open>c\<close> before each call.
\<close>

fun restart_n :: "kernel \<Rightarrow> u32 \<Rightarrow> nat \<Rightarrow> task_struct \<Rightarrow> task_struct option" where
  "restart_n K c 0 p = Some p"
| "restart_n K c (Suc n) p =
     (case restart_n K c n p of
        None \<Rightarrow> None
      | Some q \<Rightarrow> restart_burst K (q\<lparr>se := (se q)\<lparr>curr_burst_penalty := c\<rparr>\<rparr>))"

text \<open>The distance \<open>|c - x|\<close> of a penalty \<open>x\<close> from \<open>c\<close>.\<close>

definition penalty_gap :: "u32 \<Rightarrow> u32 \<Rightarrow> nat" where
  "penalty_gap c x = (if x < c then unat c - unat x else unat x - unat c)"

text \<open>
  "Reaches \<open>curr\<close> or stays within one smoothing step \<open>ceil (|curr - prev| / 40)\<close> of
  it", as a predicate on the record.
\<close>

definition within_one_step :: "u32 \<Rightarrow> sched_entity \<Rightarrow> bool" where
  "within_one_step c s \<longleftrightarrow>
     prev_burst_penalty s = c \<or>
     penalty_gap c (prev_burst_penalty s) \<le> ceil_div (penalty_gap c (prev_burst_penalty s)) 40"

text \<open>
  A task whose window is saturated and whose previous penalty is 0 (with
  \<open>curr_burst_penalty = 2000\<close>, hence \<open>burst_penalty = 2000 div 40 = 50\<close>).
\<close>

definition task40 :: task_struct where
  "task40 = task0\<lparr>se := entity0\<lparr>prev_burst_penalty := 0, burst_penalty := 50,
     burst_count := 40\<rparr>\<rparr>"

section \<open>The inherited value at fork\<close>








section \<open>Candidates of the placement functions\<close>

text \<open>The CPUs the loop of \<open>sss_select_task_rq_fair\<close> visits, in the order of the visit.\<close>

definition fair_candidates :: "sss_state \<Rightarrow> task_struct \<Rightarrow> nat list" where
  "fair_candidates E p =
     for_each_cpu (nr_cpu_ids E) (cpumask_and (cpus_ptr p) (cpu_active_mask E))"


text \<open>
  Both loops keep the first candidate that is best for a key: the signed factor for
  the fair loop, its negation for the real-time loop.
\<close>

definition gen_pick :: "(u64 \<Rightarrow> int) \<Rightarrow> (nat \<Rightarrow> u64) \<Rightarrow> nat \<Rightarrow> sss_candidate \<Rightarrow> sss_candidate" where
  "gen_pick g f c best =
     (if g (factor best) < g (f c) then \<lparr>factor = f c, cpu = c\<rparr> else best)"

text \<open>
  A machine with two active CPUs of capacity 1024, both overloaded by fair tasks
  (utilisation 2000 and 1500), with real-time pressure 10 on CPU 0 and 5 on CPU 1, and
  no topology information.
\<close>

definition sss0 :: sss_state where
  "sss0 = \<lparr>sched_sss_smt_bias = 4, sched_sss_llc_bias = 4,
     sss_rt_factor_bank = (\<lambda>c. if c = 0 then 10 else 5),
     sss_cpu_capacities = (\<lambda>c. 1024),
     sss_hp_mask = (\<lambda>c. False), sss_asymmetric = False,
     nr_cpu_ids = 2, cpu_active_mask = (\<lambda>c. c < 2),
     this_cpu = 0, current_is_p = False, current_flags = 0, wake_wide_p = False,
     sd_llc = (\<lambda>c. None), cpu_smt_mask = (\<lambda>c c'. c = c'),
     rq_cfs_util_est = (\<lambda>c. if c = 0 then 2000 else 1500),
     rq_avg_rt_util_avg = (\<lambda>c. 0), rq_avg_dl_util_avg = (\<lambda>c. 0),
     rq_curr = (\<lambda>c. None), rq_donor = (\<lambda>c. (False, 0))\<rparr>"

text \<open>The machine \<open>sss0\<close> with only CPU 0 active, and a task allowed on CPU 1 only.\<close>

definition sss_one_active :: sss_state where
  "sss_one_active = sss0\<lparr>cpu_active_mask := (\<lambda>c. c = 0)\<rparr>"

definition task_pinned :: task_struct where
  "task_pinned = task0\<lparr>cpus_ptr := (\<lambda>c. c = 1)\<rparr>"

text \<open>A fair task allowed on CPU 0 only.\<close>

definition task_cpu0 :: task_struct where
  "task_cpu0 = task0\<lparr>cpus_ptr := (\<lambda>c. c = 0)\<rparr>"



section \<open>The penalty calculator computes its arithmetic reading\<close>

lemma bit_len_0: "bit_len 0 = 0" by (simp add: bit_len.simps)

lemma bit_len_bounds: "n \<noteq> 0 \<Longrightarrow> 2 ^ (bit_len n - 1) \<le> n \<and> n < 2 ^ bit_len n"
proof (induction n rule: bit_len.induct)
  case (1 n)
  show ?case
  proof (cases "n div 2 = 0")
    case True
    with 1 have "n = 1" by (cases n) auto
    then show ?thesis by (simp add: bit_len.simps)
  next
    case False
    with 1 have ih: "2 ^ (bit_len (n div 2) - 1) \<le> n div 2" "n div 2 < 2 ^ bit_len (n div 2)"
      by auto
    have pos: "bit_len (n div 2) \<noteq> 0" using False by (subst bit_len.simps) simp
    have eq: "bit_len n = Suc (bit_len (n div 2))" using 1 by (subst bit_len.simps) simp
    from pos obtain k where k: "bit_len (n div 2) = Suc k" by (cases "bit_len (n div 2)") auto
    have "2 * (n div 2) \<le> n" "n < 2 * (n div 2) + 2" by arith+
    with ih show ?thesis by (simp add: eq k)
  qed
qed

lemma bit_len_mono: "m \<le> n \<Longrightarrow> bit_len m \<le> bit_len n"
proof (induction n arbitrary: m rule: bit_len.induct)
  case (1 n)
  show ?case
  proof (cases "m = 0")
    case True then show ?thesis by (simp add: bit_len.simps)
  next
    case False
    with 1 have n0: "n \<noteq> 0" by auto
    have "m div 2 \<le> n div 2" using 1 by (simp add: div_le_mono)
    with 1 n0 have "bit_len (m div 2) \<le> bit_len (n div 2)" by simp
    then show ?thesis using False n0 by (subst bit_len.simps, subst (2) bit_len.simps) simp
  qed
qed

lemma bit_len_pos: "n \<noteq> 0 \<Longrightarrow> 0 < bit_len n"
  by (subst bit_len.simps) simp

lemma bit_len_le: "n < 2 ^ k \<Longrightarrow> bit_len n \<le> k"
proof (cases "n = 0")
  case True then show ?thesis by (simp add: bit_len_0)
next
  case False
  assume "n < 2 ^ k"
  with bit_len_bounds [OF False] have "(2::nat) ^ (bit_len n - 1) < 2 ^ k" by linarith
  then have "bit_len n - 1 < k" by simp
  then show ?thesis by linarith
qed

lemma mant_eq:
  assumes "n \<noteq> 0" "n < 2 ^ 64"
  shows "(n * 2 ^ (65 - bit_len n)) mod 2 ^ 64 = n * 2 ^ (65 - bit_len n) - 2 ^ 64"
    and "2 ^ 64 \<le> n * 2 ^ (65 - bit_len n)" and "n * 2 ^ (65 - bit_len n) < 2 ^ 65"
proof -
  let ?e = "bit_len n"
  have e: "0 < ?e" "?e \<le> 64" using assms bit_len_pos bit_len_le by auto
  have b: "2 ^ (?e - 1) \<le> n" "n < 2 ^ ?e" using bit_len_bounds [OF assms(1)] by auto
  have "(2::nat) ^ 64 = 2 ^ (?e - 1) * 2 ^ (65 - ?e)"
    using e by (simp flip: power_add)
  also have "\<dots> \<le> n * 2 ^ (65 - ?e)" using b(1) by simp
  finally show lo: "2 ^ 64 \<le> n * 2 ^ (65 - ?e)" .
  have "n * 2 ^ (65 - ?e) < 2 ^ ?e * 2 ^ (65 - ?e)" using b(2) by simp
  also have "\<dots> = (2::nat) ^ 65" using e by (simp flip: power_add)
  finally show hi: "n * 2 ^ (65 - ?e) < 2 ^ 65" .
  from lo hi show "(n * 2 ^ (65 - ?e)) mod 2 ^ 64 = n * 2 ^ (65 - ?e) - 2 ^ 64"
    by (simp add: mod_if le_mod_geq)
qed

lemma mant_less: "((x::nat) mod 2 ^ 64) div 2 ^ 52 < 4096"
proof -
  have "x mod 2 ^ 64 < 2 ^ 52 * 4096" by simp
  then show ?thesis by (simp add: less_mult_imp_div_less mult.commute)
qed

lemma log2p1_nat_mono:
  assumes "m \<le> n" "n < 2 ^ 64"
  shows "log2p1_nat m \<le> log2p1_nat n"
proof (cases "m = 0")
  case True then show ?thesis by (simp add: log2p1_nat_def)
next
  case False
  with assms have n0: "n \<noteq> 0" and m64: "m < 2 ^ 64" by auto
  have le: "bit_len m \<le> bit_len n" using assms(1) by (rule bit_len_mono)
  show ?thesis
  proof (cases "bit_len m = bit_len n")
    case True
    have "m * 2 ^ (65 - bit_len n) - 2 ^ 64 \<le> n * 2 ^ (65 - bit_len n) - 2 ^ 64"
      using assms(1) by (simp add: diff_le_mono)
    then have "(m * 2 ^ (65 - bit_len m)) mod 2 ^ 64 \<le> (n * 2 ^ (65 - bit_len n)) mod 2 ^ 64"
      using mant_eq(1) [OF False m64] mant_eq(1) [OF n0 assms(2)] True by simp
    then have "(m * 2 ^ (65 - bit_len m)) mod 2 ^ 64 div 2 ^ 52
        \<le> (n * 2 ^ (65 - bit_len n)) mod 2 ^ 64 div 2 ^ 52"
      by (rule div_le_mono)
    then show ?thesis using False n0 True by (simp add: log2p1_nat_def)
  next
    case F2: False
    with le have "Suc (bit_len m) \<le> bit_len n" by simp
    then have "Suc (bit_len m) * 4096 \<le> bit_len n * 4096" by (rule mult_le_mono1)
    moreover have "log2p1_nat m < Suc (bit_len m) * 4096"
      using False mant_less [of "m * 2 ^ (65 - bit_len m)"] by (simp add: log2p1_nat_def)
    moreover have "bit_len n * 4096 \<le> log2p1_nat n" using n0 by (simp add: log2p1_nat_def)
    ultimately show ?thesis by linarith
  qed
qed

lemma log2p1_nat_le: "n < 2 ^ 64 \<Longrightarrow> log2p1_nat n \<le> 266239"
proof (cases "n = 0")
  case True then show ?thesis by (simp add: log2p1_nat_def)
next
  case False
  assume "n < 2 ^ 64"
  then have "bit_len n \<le> 64" by (rule bit_len_le)
  then have "bit_len n * 4096 \<le> 64 * 4096" by (rule mult_le_mono1)
  then show ?thesis using False mant_less [of "n * 2 ^ (65 - bit_len n)"]
    by (simp add: log2p1_nat_def)
qed


lemma or_is_add:
  "push_bit 12 (e::u32) OR ucast (drop_bit 52 (x::u64)) = push_bit 12 e + ucast (drop_bit 52 x)"
  by (rule disjunctive_add [symmetric]) (auto simp: bit_simps dest: bit_imp_le_length)

lemma unat_push_bit64: "unat (push_bit k (w::u64)) = (unat w * 2 ^ k) mod 2 ^ 64"
  by (subst unsigned_push_bit_eq) (simp add: take_bit_eq_mod push_bit_eq_mult)

lemma unat_push_bit32: "unat (push_bit k (w::u32)) = (unat w * 2 ^ k) mod 2 ^ 32"
  by (subst unsigned_push_bit_eq) (simp add: take_bit_eq_mod push_bit_eq_mult)

lemma unat_log2p1: "unat (log2p1_u64_u32fp v 12) = log2p1_nat (unat v)"
proof (cases "v = 0")
  case True then show ?thesis by (simp add: log2p1_u64_u32fp_def log2p1_nat_def)
next
  case False
  define n where "n = unat v"
  define e where "e = bit_len n"
  have n0: "n \<noteq> 0" using False by (simp add: n_def unat_eq_0)
  have n64: "n < 2 ^ 64" using unsigned_less [of v] by (simp add: n_def)
  have e: "0 < e" "e \<le> 64" using n0 n64 bit_len_pos bit_len_le by (auto simp: e_def)
  have ue: "unat (of_nat e :: u32) = e" using e by (simp add: unat_of_nat)
  have b: "n < 2 ^ e" using bit_len_bounds [OF n0] by (simp add: e_def)
  have "n * 2 ^ (64 - e) < 2 ^ e * 2 ^ (64 - e)" using b by simp
  also have "\<dots> = 2 ^ 64" using e by (simp flip: power_add)
  finally have small: "n * 2 ^ (64 - e) < 2 ^ 64" .
  have "65 - e = Suc (64 - e)" using e by simp
  then have p2: "(2::nat) ^ (64 - e) * 2 = 2 ^ (65 - e)" by simp
  define x where "x = push_bit 1 (push_bit (64 - e) v)"
  define y where "y = drop_bit 52 x"
  define m where "m = (ucast y :: u32)"
  define pe where "pe = push_bit 12 (of_nat e :: u32)"
  have s1: "unat (push_bit (64 - e) v) = n * 2 ^ (64 - e)"
    using small by (simp only: unat_push_bit64 n_def) simp
  have "unat x = (n * 2 ^ (64 - e) * 2) mod 2 ^ 64"
    by (simp only: x_def unat_push_bit64 [of 1] s1) simp
  then have sh: "unat x = (n * 2 ^ (65 - e)) mod 2 ^ 64"
    by (simp only: mult.assoc p2)
  have "unat y = drop_bit 52 (unat x)" unfolding y_def by (rule unat_drop_bit_eq)
  then have uy: "unat y = (n * 2 ^ (65 - e)) mod 2 ^ 64 div 2 ^ 52"
    by (simp only: drop_bit_eq_div sh)
  have ylt: "unat y < 4096" unfolding uy by (rule mant_less)
  have "unat m = take_bit 32 (unat y)" unfolding m_def by (simp add: unsigned_ucast_eq)
  also have "\<dots> = unat y" using ylt by (simp add: take_bit_eq_mod)
  finally have um: "unat m = unat y" .
  have upe: "unat pe = e * 4096"
    using e by (simp only: pe_def unat_push_bit32 ue) simp
  have "log2p1_u64_u32fp v 12 = pe OR m"
    using False
    by (simp add: log2p1_u64_u32fp_def fls64_def Let_def ue pe_def m_def y_def x_def
          flip: e_def n_def)
  also have "\<dots> = pe + m" unfolding pe_def m_def y_def by (rule or_is_add)
  finally have "unat (log2p1_u64_u32fp v 12) = (unat pe + unat m) mod 2 ^ 32"
    by (simp add: unat_word_ariths)
  also have "\<dots> = e * 4096 + unat y" using e ylt by (simp add: upe um)
  finally show ?thesis using n0 by (simp add: log2p1_nat_def uy flip: e_def n_def)
qed

lemma uint_less_of_unat: "unat (w :: 'a::len word) < n \<Longrightarrow> uint w < int n"
proof -
  assume "unat w < n"
  then have "int (unat w) < int n" by (simp only: of_nat_less_iff)
  then show ?thesis by simp
qed

lemma sint_small:
  fixes w :: u32
  assumes "unat w < 2147483648"
  shows "sint w = int (unat w)"
proof -
  have u: "uint w < 2147483648" using uint_less_of_unat [OF assms] by simp
  have "- (2 ^ 31) \<le> uint w" by (rule order_trans [of _ 0]) simp_all
  moreover have "uint w < 2 ^ 31" using u by simp
  ultimately have "signed_take_bit 31 (uint w) = uint w"
    by (rule signed_take_bit_int_eq_self)
  then show ?thesis by (simp add: sint_uint)
qed

lemma sint_sub_small:
  fixes a b :: u32
  assumes "unat a < 2147483648" "unat b < 2147483648"
  shows "sint (a - b) = int (unat a) - int (unat b)"
proof -
  have "- 2147483648 \<le> int (unat a) - int (unat b)" "int (unat a) - int (unat b) < 2147483648"
    using assms by linarith+
  then have "- (2 ^ 31) \<le> int (unat a) - int (unat b)" "int (unat a) - int (unat b) < 2 ^ 31"
    by simp_all
  then have "signed_take_bit 31 (int (unat a) - int (unat b)) = int (unat a) - int (unat b)"
    by (rule signed_take_bit_int_eq_self)
  then show ?thesis
    by (simp only: sint_word_diff sint_small [OF assms(1)] sint_small [OF assms(2)]) simp
qed

lemma signed_drop_bit_nonneg:
  fixes x :: u32
  assumes "unat x < 2147483648"
  shows "unat (signed_drop_bit k x) = unat x div 2 ^ k"
proof -
  have d: "unat (drop_bit k x) = unat x div 2 ^ k"
    by (subst unat_drop_bit_eq) (rule drop_bit_eq_div)
  have "unat x div 2 ^ k \<le> unat x" by (rule div_le_dividend)
  with assms d have "unat (drop_bit k x) < 2147483648" by linarith
  then have "sint (drop_bit k x) = int (unat x div 2 ^ k)"
    by (simp only: sint_small d)
  moreover have "sint (signed_drop_bit k x) = int (unat x div 2 ^ k)"
    by (simp only: sint_signed_drop_bit_eq sint_small [OF assms] drop_bit_eq_div zdiv_int) simp
  ultimately have "sint (signed_drop_bit k x) = sint (drop_bit k x)" by simp
  then have "signed_drop_bit k x = drop_bit k x" by (rule signed_word_eqI)
  then show ?thesis by (simp only: d)
qed


lemma unat_calc_burst_penalty:
  shows "unat (calc_burst_penalty v) = penalty_nat (unat v)"
proof -
  define g where "g = log2p1_u64_u32fp v 12"
  define t :: u32 where "t = 102400"
  have ut: "unat t = 102400" by (simp add: t_def)
  have ul: "unat (log2p1_u64_u32fp v 12) = log2p1_nat (unat v)" by (rule unat_log2p1)
  have "unat v < 2 ^ 64" using unsigned_less [of v] by simp
  then have le: "log2p1_nat (unat v) \<le> 266239" by (rule log2p1_nat_le)
  have g: "unat g \<le> 266239" using le by (simp add: ul g_def)
  have "unat g < 2147483648" using g by linarith
  moreover have "unat t < 2147483648" by (simp add: ut)
  ultimately have "sint (g - t) = int (unat g) - int (unat t)" by (rule sint_sub_small)
  then have s: "sint (g - t) = int (unat g) - 102400" by (simp add: ut)
  define p where "p = (if 0 <s g - t then g - t else 0)"
  have up: "unat p = unat g - 102400"
  proof (cases "0 <s g - t")
    case True
    then have "0 < sint (g - t)" by (simp add: word_sless_alt)
    then have "unat t \<le> unat g" using s ut by linarith
    then have "t \<le> g" by (simp only: word_le_nat_alt)
    then have "unat (g - t) = unat g - unat t" by (rule unat_sub)
    then show ?thesis using True ut by (simp add: p_def)
  next
    case False
    then have "\<not> 0 < sint (g - t)" by (simp add: word_sless_alt)
    then have "unat g - 102400 = 0" using s by linarith
    then show ?thesis using False by (simp add: p_def)
  qed
  have pb: "unat p * 3180 < 2147483648" using g up by linarith
  have um: "unat (p * 3180) = unat p * 3180"
    using pb by (simp add: unat_word_ariths)
  have "unat (signed_drop_bit 10 (p * 3180)) = unat (p * 3180) div 2 ^ 10"
    by (rule signed_drop_bit_nonneg) (simp only: um pb)
  then have sd: "unat (signed_drop_bit 10 (p * 3180)) = (unat g - 102400) * 3180 div 1024"
    by (simp only: um up) simp
  have "calc_burst_penalty v = min 163839 (signed_drop_bit 10 (p * 3180))"
    by (simp add: calc_burst_penalty_def Let_def BORE_PENALTY_SHIFT_def BORE_PENALTY_OFFSET_def
        BORE_PENALTY_SCALE_def BORE_MAX_PENALTY_def p_def g_def t_def)
  then have "unat (calc_burst_penalty v) = min 163839 (unat (signed_drop_bit 10 (p * 3180)))"
    by (simp add: min_def word_le_nat_alt)
  then show ?thesis by (simp only: sd penalty_nat_def g_def ul)
qed

lemma penalty_nat_mono:
  assumes "m \<le> n" "n < 2 ^ 64"
  shows "penalty_nat m \<le> penalty_nat n"
proof -
  have "log2p1_nat m - 102400 \<le> log2p1_nat n - 102400"
    using log2p1_nat_mono [OF assms] by (rule diff_le_mono)
  then have "(log2p1_nat m - 102400) * 3180 \<le> (log2p1_nat n - 102400) * 3180"
    by (rule mult_le_mono1)
  then have "(log2p1_nat m - 102400) * 3180 div 1024 \<le> (log2p1_nat n - 102400) * 3180 div 1024"
    by (rule div_le_mono)
  then show ?thesis by (simp add: penalty_nat_def min_le_iff_disj)
qed

text \<open>
  C1. The burst penalty calculator is monotonically non-decreasing in the burst time,
  never exceeds \<open>BORE_MAX_PENALTY = (40 << 12) - 1\<close>, and is 0 for a burst time of 0.
\<close>

theorem calc_burst_penalty_monotone_bounded:
  "(a \<le> b \<longrightarrow> calc_burst_penalty a \<le> calc_burst_penalty b) \<and>
   calc_burst_penalty a \<le> BORE_MAX_PENALTY \<and>
   unat BORE_MAX_PENALTY = 40 * 2 ^ 12 - 1 \<and>
   calc_burst_penalty 0 = 0"
proof (intro conjI impI)
  assume "a \<le> b"
  then have "unat a \<le> unat b" by (simp add: word_le_nat_alt)
  moreover have "unat b < 2 ^ 64" using unsigned_less [of b] by simp
  ultimately have "penalty_nat (unat a) \<le> penalty_nat (unat b)" by (rule penalty_nat_mono)
  then show "calc_burst_penalty a \<le> calc_burst_penalty b"
    by (simp add: word_le_nat_alt unat_calc_burst_penalty)
next
  have m: "unat BORE_MAX_PENALTY = 163839"
    by (simp add: BORE_MAX_PENALTY_def BORE_PENALTY_SHIFT_def)
  then show "unat BORE_MAX_PENALTY = 40 * 2 ^ 12 - 1" by simp
  have "penalty_nat (unat a) \<le> 163839" by (simp add: penalty_nat_def)
  then show "calc_burst_penalty a \<le> BORE_MAX_PENALTY"
    by (simp add: word_le_nat_alt unat_calc_burst_penalty m)
next
  have "unat (calc_burst_penalty 0) = 0"
    by (simp add: unat_calc_burst_penalty penalty_nat_def log2p1_nat_def)
  then show "calc_burst_penalty 0 = 0" by (simp add: unat_eq_0)
qed

theorem calc_burst_penalty_monotone_bounded_witness:
  "(5 :: u64) \<le> 2 ^ 30 \<and> calc_burst_penalty 5 \<le> calc_burst_penalty (2 ^ 30) \<and>
   calc_burst_penalty (2 ^ 30) = 76320"
proof -
  have v: "calc_burst_penalty (2 ^ 30) = 76320"
    by (simp add: calc_burst_penalty_def log2p1_u64_u32fp_def fls64_def bit_len.simps
        BORE_PENALTY_SHIFT_def BORE_PENALTY_OFFSET_def BORE_PENALTY_SCALE_def
        BORE_MAX_PENALTY_def Let_def word_sless_alt)
  show ?thesis using calc_burst_penalty_monotone_bounded [of 5 "2 ^ 30"] v by simp
qed


section \<open>The burst state machine\<close>

lemma update_burst_score_fields:
  assumes "reweight_keeps_burst K"
  shows "burst_time (se (update_burst_score K p)) = burst_time (se p)"
    and "prev_burst_penalty (se (update_burst_score K p)) = prev_burst_penalty (se p)"
    and "curr_burst_penalty (se (update_burst_score K p)) = curr_burst_penalty (se p)"
    and "burst_penalty (se (update_burst_score K p)) = burst_penalty (se p)"
    and "burst_count (se (update_burst_score K p)) = burst_count (se p)"
    and "child_burst (se (update_burst_score K p)) = child_burst (se p)"
    and "group_burst (se (update_burst_score K p)) = group_burst (se p)"
    and "entity_is_task (se (update_burst_score K p)) = entity_is_task (se p)"
    and "burst_score (se (update_burst_score K p)) =
          (if \<not> entity_is_task (se p) then burst_score (se p)
           else if flags p AND PF_KTHREAD K = 0
                then ucast (drop_bit 12 (burst_penalty (se p))) else 0)"
  using assms
  by (simp_all add: update_burst_score_def reweight_task_by_prio_def reweight_keeps_burst_def
      Let_def BORE_PENALTY_SHIFT_def)

lemma ceil_div_alt:
  assumes "0 < b"
  shows "ceil_div a b = a div b + (if a mod b \<noteq> 0 then 1 else 0)"
proof -
  have "a + b - 1 = a div b * b + (a mod b + b - 1)" using assms by simp
  then have "ceil_div a b = (a div b * b + (a mod b + b - 1)) div b"
    by (simp only: ceil_div_def)
  also have "\<dots> = a div b + (a mod b + b - 1) div b"
    using assms by (simp only: div_mult_self3)
  also have "(a mod b + b - 1) div b = (if a mod b \<noteq> 0 then 1 else 0)"
  proof (cases "a mod b = 0")
    case True
    then show ?thesis using assms by simp
  next
    case False
    have "a mod b < b" using assms by simp
    with False have "b * 1 \<le> a mod b + b - 1" "a mod b + b - 1 < b * Suc 1" by simp_all
    then have "(a mod b + b - 1) div b = 1" by (rule div_nat_eqI)
    with False show ?thesis by simp
  qed
  finally show ?thesis .
qed

lemma ceil_div_le:
  assumes "0 < b"
  shows "ceil_div a b \<le> a"
proof (cases "a mod b = 0")
  case True
  then show ?thesis using assms by (simp add: ceil_div_alt)
next
  case False
  have "a div b * b + a mod b = a" by simp
  moreover have "a div b \<le> a div b * b" using assms by simp
  moreover have "1 \<le> a mod b" using False by simp
  ultimately have "a div b + 1 \<le> a" by linarith
  then show ?thesis using assms False by (simp add: ceil_div_alt)
qed

lemma ceil_div_0: "0 < b \<Longrightarrow> ceil_div 0 b = 0"
  by (simp add: ceil_div_alt)

lemma ceil_div_pos: "0 < b \<Longrightarrow> 0 < a \<Longrightarrow> 0 < ceil_div a b"
  by (cases "a mod b = 0") (auto simp: ceil_div_alt div_greater_zero_iff dest: mod_less)

lemma unat_adj_diff:
  fixes x :: u32 and d :: u8
  assumes "d \<noteq> 0"
  shows "unat (x div ucast d + (if x mod ucast d \<noteq> 0 then 1 else 0)) = ceil_div (unat x) (unat d)"
proof -
  define y where "y = (ucast d :: u32)"
  have "unat d < 256" using unsigned_less [of d, where ?'a = nat] by simp
  then have uy: "unat y = unat d" by (simp add: y_def unsigned_ucast_eq take_bit_eq_mod)
  have dpos: "0 < unat d" using assms by (simp add: unat_gt_0)
  have q: "unat (x div y) = unat x div unat d" by (simp only: unat_div uy)
  have r: "unat (x mod y) = unat x mod unat d" by (simp only: unat_mod uy)
  have "(x mod y = 0) = (unat (x mod y) = 0)" by (rule unat_eq_0 [symmetric])
  then have rz: "x mod y \<noteq> 0 \<longleftrightarrow> unat x mod unat d \<noteq> 0"
    by (simp only: r)
  define i :: u32 where "i = (if x mod y \<noteq> 0 then 1 else 0)"
  have ui: "unat i = (if unat x mod unat d \<noteq> 0 then 1 else 0)"
    using rz by (simp add: i_def)
  have c: "unat (x div y) + unat i = ceil_div (unat x) (unat d)"
    using dpos by (simp only: q ui ceil_div_alt)
  have "ceil_div (unat x) (unat d) \<le> unat x" using dpos by (rule ceil_div_le)
  moreover have "unat x < 2 ^ 32" using unsigned_less [of x] by simp
  ultimately have "unat (x div y) + unat i < 2 ^ 32" using c by linarith
  then have "unat (x div y + i) = unat (x div y) + unat i"
    by (simp add: unat_word_ariths)
  then have "unat (x div y + i) = ceil_div (unat x) (unat d)" by (simp only: c)
  then show ?thesis by (simp only: i_def y_def)
qed

lemma unat_binary_smooth:
  assumes "d \<noteq> 0"
  shows "\<exists>v. binary_smooth new old d = Some v \<and>
        unat v = (if old < new then unat old + ceil_div (unat new - unat old) (unat d)
                  else unat old - ceil_div (unat old - unat new) (unat d))"
proof (cases "old < new")
  case True
  define adj where "adj = (new - old) div ucast d + (if (new - old) mod ucast d \<noteq> 0 then 1 else 0)"
  have dpos: "0 < unat d" using assms by (simp add: unat_gt_0)
  have "old \<le> new" using True by simp
  then have ud: "unat (new - old) = unat new - unat old" by (rule unat_sub)
  have ua: "unat adj = ceil_div (unat new - unat old) (unat d)"
    unfolding adj_def using unat_adj_diff [OF assms, of "new - old"] by (simp only: ud)
  have "ceil_div (unat new - unat old) (unat d) \<le> unat new - unat old"
    using dpos by (rule ceil_div_le)
  moreover have "unat old < unat new" using True by (simp add: word_less_nat_alt)
  moreover have "unat new < 2 ^ 32" using unsigned_less [of new] by simp
  ultimately have "unat old + unat adj < 2 ^ 32" using ua by linarith
  then have "unat (old + adj) = unat old + unat adj" by (simp add: unat_word_ariths)
  moreover have "binary_smooth new old d = Some (old + adj)"
    using assms True by (simp add: binary_smooth_def Let_def adj_def)
  ultimately show ?thesis using True ua by simp
next
  case False
  define adj where "adj = (old - new) div ucast d + (if (old - new) mod ucast d \<noteq> 0 then 1 else 0)"
  have dpos: "0 < unat d" using assms by (simp add: unat_gt_0)
  have le: "new \<le> old" using False by simp
  then have ud: "unat (old - new) = unat old - unat new" by (rule unat_sub)
  have ua: "unat adj = ceil_div (unat old - unat new) (unat d)"
    unfolding adj_def using unat_adj_diff [OF assms, of "old - new"] by (simp only: ud)
  have "ceil_div (unat old - unat new) (unat d) \<le> unat old - unat new"
    using dpos by (rule ceil_div_le)
  then have "unat adj \<le> unat old" using ua by linarith
  then have "adj \<le> old" by (simp add: word_le_nat_alt)
  then have "unat (old - adj) = unat old - unat adj" by (rule unat_sub)
  moreover have "binary_smooth new old d = Some (old - adj)"
    using assms False by (simp add: binary_smooth_def Let_def adj_def)
  ultimately show ?thesis using False ua by simp
qed


lemma restart_burst_raw_Some:
  assumes "burst_count s \<noteq> 0"
  shows "\<exists>v. binary_smooth (curr_burst_penalty s) (prev_burst_penalty s) (burst_count s) = Some v \<and>
     restart_burst_raw s = Some (s\<lparr>prev_burst_penalty := v, burst_time := 0,
        curr_burst_penalty := 0,
        burst_count := (if burst_count s < 40 then burst_count s + 1 else 40)\<rparr>) \<and>
     unat v = (if prev_burst_penalty s < curr_burst_penalty s
               then unat (prev_burst_penalty s) +
                    ceil_div (unat (curr_burst_penalty s) - unat (prev_burst_penalty s))
                      (unat (burst_count s))
               else unat (prev_burst_penalty s) -
                    ceil_div (unat (prev_burst_penalty s) - unat (curr_burst_penalty s))
                      (unat (burst_count s)))"
proof -
  from unat_binary_smooth [OF assms, of "curr_burst_penalty s" "prev_burst_penalty s"]
  obtain v where v: "binary_smooth (curr_burst_penalty s) (prev_burst_penalty s) (burst_count s) = Some v"
    and u: "unat v = (if prev_burst_penalty s < curr_burst_penalty s
               then unat (prev_burst_penalty s) +
                    ceil_div (unat (curr_burst_penalty s) - unat (prev_burst_penalty s))
                      (unat (burst_count s))
               else unat (prev_burst_penalty s) -
                    ceil_div (unat (prev_burst_penalty s) - unat (curr_burst_penalty s))
                      (unat (burst_count s)))"
    by blast
  have "restart_burst_raw s = Some (s\<lparr>prev_burst_penalty := v, burst_time := 0,
        curr_burst_penalty := 0,
        burst_count := (if burst_count s < 40 then burst_count s + 1 else 40)\<rparr>)"
    by (simp add: restart_burst_raw_def v BORE_SMOOTHNESS_def)
  with v u show ?thesis by blast
qed

lemma unat_count_step:
  fixes c :: u8
  shows "unat (if c < 40 then c + 1 else 40) = min (unat c + 1) 40"
proof (cases "c < 40")
  case True
  then have "unat c < 40" by (simp add: word_less_nat_alt)
  then have "unat (c + 1) = unat c + 1" by (simp add: unat_word_ariths)
  with True \<open>unat c < 40\<close> show ?thesis by simp
next
  case False
  then have "40 \<le> unat c" by (simp add: word_less_nat_alt)
  with False show ?thesis by simp
qed

lemma restart_burst_fields:
  assumes "reweight_keeps_burst K" and "1 \<le> burst_count (se p)"
  shows "\<exists>p'. restart_burst K p = Some p' \<and>
     unat (prev_burst_penalty (se p')) =
       (if prev_burst_penalty (se p) < curr_burst_penalty (se p)
        then unat (prev_burst_penalty (se p)) +
             ceil_div (unat (curr_burst_penalty (se p)) - unat (prev_burst_penalty (se p)))
               (unat (burst_count (se p)))
        else unat (prev_burst_penalty (se p)) -
             ceil_div (unat (prev_burst_penalty (se p)) - unat (curr_burst_penalty (se p)))
               (unat (burst_count (se p)))) \<and>
     burst_time (se p') = 0 \<and>
     curr_burst_penalty (se p') = 0 \<and>
     unat (burst_count (se p')) = min (unat (burst_count (se p)) + 1) 40 \<and>
     burst_penalty (se p') = prev_burst_penalty (se p')"
proof -
  have nz: "burst_count (se p) \<noteq> 0" using assms(2) by auto
  from restart_burst_raw_Some [OF nz] obtain v where
    r: "restart_burst_raw (se p) = Some ((se p)\<lparr>prev_burst_penalty := v, burst_time := 0,
        curr_burst_penalty := 0,
        burst_count := (if burst_count (se p) < 40 then burst_count (se p) + 1 else 40)\<rparr>)"
    and u: "unat v = (if prev_burst_penalty (se p) < curr_burst_penalty (se p)
        then unat (prev_burst_penalty (se p)) +
             ceil_div (unat (curr_burst_penalty (se p)) - unat (prev_burst_penalty (se p)))
               (unat (burst_count (se p)))
        else unat (prev_burst_penalty (se p)) -
             ceil_div (unat (prev_burst_penalty (se p)) - unat (curr_burst_penalty (se p)))
               (unat (burst_count (se p))))"
    by blast
  show ?thesis
    unfolding restart_burst_def r
    using u unat_count_step [of "burst_count (se p)"]
    by (simp add: update_burst_score_fields [OF assms(1)])
qed

text \<open>
  C4. On a burst record with \<open>burst_count \<ge> 1\<close>, \<open>restart_burst\<close> moves
  \<open>prev_burst_penalty\<close> toward \<open>curr_burst_penalty\<close> by exactly
  \<open>ceil (|curr - prev| / burst_count)\<close> in the direction of the difference, zeroes
  \<open>burst_time\<close> and \<open>curr_burst_penalty\<close>, increments \<open>burst_count\<close> saturating at 40, and sets
  \<open>burst_penalty\<close> to the new \<open>prev_burst_penalty\<close>.
\<close>

theorem restart_burst_effect:
  assumes "reweight_keeps_burst K" and "1 \<le> burst_count (se p)"
  shows "\<exists>p'. restart_burst K p = Some p' \<and>
     unat (prev_burst_penalty (se p')) =
       (if prev_burst_penalty (se p) < curr_burst_penalty (se p)
        then unat (prev_burst_penalty (se p)) +
             ceil_div (unat (curr_burst_penalty (se p)) - unat (prev_burst_penalty (se p)))
               (unat (burst_count (se p)))
        else unat (prev_burst_penalty (se p)) -
             ceil_div (unat (prev_burst_penalty (se p)) - unat (curr_burst_penalty (se p)))
               (unat (burst_count (se p)))) \<and>
     burst_time (se p') = 0 \<and>
     curr_burst_penalty (se p') = 0 \<and>
     unat (burst_count (se p')) = min (unat (burst_count (se p)) + 1) 40 \<and>
     burst_penalty (se p') = prev_burst_penalty (se p')"
  using assms by (rule restart_burst_fields)

theorem restart_burst_effect_witness:
  "reweight_keeps_burst host0 \<and> 1 \<le> burst_count (se task0) \<and>
   (\<exists>p'. restart_burst host0 task0 = Some p' \<and>
      unat (prev_burst_penalty (se p')) = 1334 \<and> burst_time (se p') = 0 \<and>
      curr_burst_penalty (se p') = 0 \<and> unat (burst_count (se p')) = 4 \<and>
      burst_penalty (se p') = prev_burst_penalty (se p'))"
proof -
  have k: "reweight_keeps_burst host0" by (simp add: reweight_keeps_burst_def host0_def)
  have c: "1 \<le> burst_count (se task0)" by (simp add: task0_def entity0_def)
  show ?thesis
    using restart_burst_effect [OF k c] k c
    by (simp add: task0_def entity0_def ceil_div_def)
qed

lemma calc_burst_penalty_bounded: "calc_burst_penalty v \<le> BORE_MAX_PENALTY"
proof -
  have "penalty_nat (unat v) \<le> 163839" by (simp add: penalty_nat_def)
  then show ?thesis
    by (simp add: word_le_nat_alt unat_calc_burst_penalty BORE_MAX_PENALTY_def BORE_PENALTY_SHIFT_def)
qed

lemma unat_incr_mean:
  fixes prev curr :: u32 and cnt :: u8
  assumes "prev < curr" "cnt \<noteq> 0"
  shows "unat (prev + (curr - prev) div ucast cnt) =
           unat prev + (unat curr - unat prev) div unat cnt"
    and "prev + (curr - prev) div ucast cnt \<le> curr"
proof -
  define y where "y = (ucast cnt :: u32)"
  have "unat cnt < 256" using unsigned_less [of cnt, where ?'a = nat] by simp
  then have uy: "unat y = unat cnt" by (simp add: y_def unsigned_ucast_eq take_bit_eq_mod)
  have "prev \<le> curr" using assms(1) by simp
  then have ud: "unat (curr - prev) = unat curr - unat prev" by (rule unat_sub)
  have q: "unat ((curr - prev) div y) = (unat curr - unat prev) div unat cnt"
    by (simp only: unat_div uy ud)
  have "(unat curr - unat prev) div unat cnt \<le> unat curr - unat prev" by (rule div_le_dividend)
  moreover have lt: "unat prev < unat curr" using assms(1) by (simp add: word_less_nat_alt)
  moreover have "unat curr < 2 ^ 32" using unsigned_less [of curr] by simp
  ultimately have b: "unat prev + unat ((curr - prev) div y) \<le> unat curr"
    "unat prev + unat ((curr - prev) div y) < 2 ^ 32" using q by linarith+
  then have "unat (prev + (curr - prev) div y) = unat prev + unat ((curr - prev) div y)"
    by (simp add: unat_word_ariths)
  then have r: "unat (prev + (curr - prev) div y) = unat prev + (unat curr - unat prev) div unat cnt"
    by (simp only: q)
  then show "unat (prev + (curr - prev) div ucast cnt) =
           unat prev + (unat curr - unat prev) div unat cnt" by (simp only: y_def)
  have "unat (prev + (curr - prev) div y) \<le> unat curr" using b(1) r q by linarith
  then show "prev + (curr - prev) div ucast cnt \<le> curr" by (simp only: word_le_nat_alt y_def)
qed

lemma max_penalty_val: "unat BORE_MAX_PENALTY = 163839"
  by (simp add: BORE_MAX_PENALTY_def BORE_PENALTY_SHIFT_def)

lemma score_of_penalty:
  fixes bp :: u32
  assumes "bp \<le> BORE_MAX_PENALTY"
  shows "unat (ucast (drop_bit 12 bp) :: u8) = unat bp div 2 ^ 12"
    and "(ucast (drop_bit 12 bp) :: u8) \<le> 39"
proof -
  have b: "unat bp \<le> 163839" using assms by (simp add: word_le_nat_alt max_penalty_val)
  have "unat (drop_bit 12 bp) = drop_bit 12 (unat bp)" by (rule unat_drop_bit_eq)
  then have d: "unat (drop_bit 12 bp) = unat bp div 2 ^ 12" by (simp only: drop_bit_eq_div)
  have "unat bp div 2 ^ 12 \<le> 163839 div 2 ^ 12" using b by (rule div_le_mono)
  then have le: "unat bp div 2 ^ 12 \<le> 39" by simp
  have "unat (ucast (drop_bit 12 bp) :: u8) = take_bit 8 (unat (drop_bit 12 bp))"
    by (simp add: unsigned_ucast_eq)
  also have "\<dots> = unat bp div 2 ^ 12" using le by (simp only: d take_bit_eq_mod) simp
  finally show u: "unat (ucast (drop_bit 12 bp) :: u8) = unat bp div 2 ^ 12" .
  show "(ucast (drop_bit 12 bp) :: u8) \<le> 39" using le by (simp only: word_le_nat_alt u) simp
qed

text \<open>
  C3. On the burst record of a task with \<open>burst_count \<ge> 1\<close>, \<open>update_curr_bore\<close> adds
  \<open>delta_exec\<close> to \<open>burst_time\<close>, recomputes \<open>curr_burst_penalty\<close> with
  \<open>calc_burst_penalty\<close>, and sets \<open>burst_penalty\<close> to
  \<open>prev_burst_penalty + (curr_burst_penalty - prev_burst_penalty) / burst_count\<close>
  (truncating, without wrap-around) exactly when the new \<open>curr_burst_penalty\<close> exceeds
  \<open>prev_burst_penalty\<close>, leaving it unchanged otherwise; the new \<open>burst_score\<close> is
  \<open>burst_penalty >> 12\<close> (cast to \<open>u8\<close>, which loses nothing when the penalty was within
  its maximum), and 0 for a kernel thread.
\<close>

theorem update_curr_bore_effect:
  assumes "reweight_keeps_burst K" and "entity_is_task (se p)" and "1 \<le> burst_count (se p)"
  shows "\<exists>p'. update_curr_bore K delta_exec p = Some p' \<and>
     burst_time (se p') = burst_time (se p) + delta_exec \<and>
     curr_burst_penalty (se p') = calc_burst_penalty (burst_time (se p) + delta_exec) \<and>
     prev_burst_penalty (se p') = prev_burst_penalty (se p) \<and>
     burst_count (se p') = burst_count (se p) \<and>
     (prev_burst_penalty (se p) < curr_burst_penalty (se p') \<longrightarrow>
        burst_penalty (se p') =
          prev_burst_penalty (se p) +
          (curr_burst_penalty (se p') - prev_burst_penalty (se p)) div ucast (burst_count (se p)) \<and>
        unat (burst_penalty (se p')) =
          unat (prev_burst_penalty (se p)) +
          (unat (curr_burst_penalty (se p')) - unat (prev_burst_penalty (se p))) div
            unat (burst_count (se p))) \<and>
     (\<not> prev_burst_penalty (se p) < curr_burst_penalty (se p') \<longrightarrow>
        burst_penalty (se p') = burst_penalty (se p)) \<and>
     burst_score (se p') =
       (if flags p AND PF_KTHREAD K = 0 then ucast (drop_bit 12 (burst_penalty (se p'))) else 0) \<and>
     (flags p AND PF_KTHREAD K = 0 \<and> burst_penalty (se p) \<le> BORE_MAX_PENALTY \<longrightarrow>
        unat (burst_score (se p')) = unat (burst_penalty (se p')) div 2 ^ 12)"
proof -
  define c where "c = calc_burst_penalty (burst_time (se p) + delta_exec)"
  have nz: "burst_count (se p) \<noteq> 0" using assms(3) by auto
  have cm: "c \<le> BORE_MAX_PENALTY"
    unfolding c_def using calc_burst_penalty_bounded by simp
  note f = update_burst_score_fields [OF assms(1)]
  show ?thesis
  proof (cases "prev_burst_penalty (se p) < c")
    case True
    define bp where "bp = prev_burst_penalty (se p) +
        (c - prev_burst_penalty (se p)) div ucast (burst_count (se p))"
    have u: "unat bp = unat (prev_burst_penalty (se p)) +
        (unat c - unat (prev_burst_penalty (se p))) div unat (burst_count (se p))"
      unfolding bp_def using True nz by (rule unat_incr_mean(1))
    have "bp \<le> c" unfolding bp_def using True nz by (rule unat_incr_mean(2))
    with cm have bm: "bp \<le> BORE_MAX_PENALTY" by simp
    have "update_curr_bore K delta_exec p = Some (update_burst_score K
       (p\<lparr>se := (se p)\<lparr>burst_time := burst_time (se p) + delta_exec,
            curr_burst_penalty := c, burst_penalty := bp\<rparr>\<rparr>))"
      using True nz assms(2) by (simp add: update_curr_bore_def Let_def c_def bp_def)
    then show ?thesis
      using True assms(2) u score_of_penalty(1) [OF bm]
      by (simp add: f flip: c_def bp_def)
  next
    case False
    have "update_curr_bore K delta_exec p = Some (update_burst_score K
       (p\<lparr>se := (se p)\<lparr>burst_time := burst_time (se p) + delta_exec,
            curr_burst_penalty := c\<rparr>\<rparr>))"
      using False assms(2) by (simp add: update_curr_bore_def Let_def c_def)
    then show ?thesis
      using False assms(2) score_of_penalty(1) [of "burst_penalty (se p)"]
      by (simp add: f flip: c_def)
  qed
qed


lemma task0_simps:
  "se task0 = entity0" "flags task0 = 0" "static_prio task0 = 120"
  "burst_time entity0 = 5000000" "prev_burst_penalty entity0 = 1000"
  "curr_burst_penalty entity0 = 2000" "burst_penalty entity0 = 1500"
  "burst_score entity0 = 0" "burst_count entity0 = 3" "entity_is_task entity0"
  by (simp_all add: task0_def entity0_def)

lemma host0_simps:
  "MAX_RT_PRIO host0 = 100" "PF_KTHREAD host0 = 0x200000"
  "reweight_keeps_burst host0"
  by (simp_all add: host0_def reweight_keeps_burst_def)

lemma calc_burst_penalty_2p30: "calc_burst_penalty 1073741824 = 76320"
  by (simp add: calc_burst_penalty_def log2p1_u64_u32fp_def fls64_def bit_len.simps
      BORE_PENALTY_SHIFT_def BORE_PENALTY_OFFSET_def BORE_PENALTY_SCALE_def
      BORE_MAX_PENALTY_def Let_def word_sless_alt)

theorem update_curr_bore_effect_witness:
  "reweight_keeps_burst host0 \<and> entity_is_task (se task0) \<and> 1 \<le> burst_count (se task0) \<and>
   (\<exists>p'. update_curr_bore host0 1068741824 task0 = Some p' \<and>
      burst_time (se p') = 2 ^ 30 \<and> curr_burst_penalty (se p') = 76320 \<and>
      burst_penalty (se p') = 26106 \<and> burst_score (se p') = 6)"
proof -
  have k: "reweight_keeps_burst host0" by (rule host0_simps)
  have t: "entity_is_task (se task0)" by (simp add: task0_simps)
  have c: "1 \<le> burst_count (se task0)" by (simp add: task0_simps)
  show ?thesis
    using update_curr_bore_effect [OF k t c, of 1068741824] k t c
    by (auto simp add: task0_simps host0_simps calc_burst_penalty_2p30)
qed


section \<open>The invariant of the burst record\<close>

lemma burst_inv_update_burst_score:
  assumes "reweight_keeps_burst K" and "burst_inv (se p)"
  shows "burst_inv (se (update_burst_score K p))"
proof -
  note f = update_burst_score_fields [OF assms(1), of p]
  have bp: "burst_penalty (se p) \<le> BORE_MAX_PENALTY"
    using assms(2) by (simp add: burst_inv_def burst_ranges_def)
  have "burst_score (se (update_burst_score K p)) \<le> 39"
    using assms(2) score_of_penalty(2) [OF bp]
    by (simp add: f burst_inv_def burst_ranges_def)
  then show ?thesis
    using assms(2) by (simp add: burst_inv_def burst_ranges_def f(1-8))
qed

lemma burst_inv_update_curr_bore:
  assumes "reweight_keeps_burst K" and "burst_inv (se p)"
  shows "\<exists>p'. update_curr_bore K delta_exec p = Some p' \<and> burst_inv (se p')"
proof (cases "entity_is_task (se p)")
  case False
  then show ?thesis using assms(2) by (simp add: update_curr_bore_def)
next
  case True
  define c where "c = calc_burst_penalty (burst_time (se p) + delta_exec)"
  have cm: "c \<le> BORE_MAX_PENALTY" unfolding c_def by (rule calc_burst_penalty_bounded)
  have nz: "burst_count (se p) \<noteq> 0"
    using assms(2) by (auto simp: burst_inv_def burst_ranges_def)
  show ?thesis
  proof (cases "prev_burst_penalty (se p) < c")
    case lt: True
    define bp where "bp = prev_burst_penalty (se p) +
        (c - prev_burst_penalty (se p)) div ucast (burst_count (se p))"
    have "bp \<le> c" unfolding bp_def using lt nz by (rule unat_incr_mean(2))
    with cm have bm: "bp \<le> BORE_MAX_PENALTY" by simp
    define q where "q = p\<lparr>se := (se p)\<lparr>burst_time := burst_time (se p) + delta_exec,
            curr_burst_penalty := c, burst_penalty := bp\<rparr>\<rparr>"
    have "burst_inv (se q)"
      using assms(2) cm bm by (simp add: q_def burst_inv_def burst_ranges_def)
    then have "burst_inv (se (update_burst_score K q))"
      by (rule burst_inv_update_burst_score [OF assms(1)])
    moreover have "update_curr_bore K delta_exec p = Some (update_burst_score K q)"
      using True lt nz by (simp add: update_curr_bore_def Let_def c_def bp_def q_def)
    ultimately show ?thesis by simp
  next
    case ge: False
    define q where "q = p\<lparr>se := (se p)\<lparr>burst_time := burst_time (se p) + delta_exec,
            curr_burst_penalty := c\<rparr>\<rparr>"
    have "burst_inv (se q)"
      using assms(2) cm by (simp add: q_def burst_inv_def burst_ranges_def)
    then have "burst_inv (se (update_burst_score K q))"
      by (rule burst_inv_update_burst_score [OF assms(1)])
    moreover have "update_curr_bore K delta_exec p = Some (update_burst_score K q)"
      using True ge by (simp add: update_curr_bore_def Let_def c_def q_def)
    ultimately show ?thesis by simp
  qed
qed

lemma binary_smooth_bounded:
  assumes "d \<noteq> 0" "new \<le> m" "old \<le> m"
  shows "\<exists>v. binary_smooth new old d = Some v \<and> v \<le> m"
proof -
  from unat_binary_smooth [OF assms(1), of new old] obtain v where
    v: "binary_smooth new old d = Some v"
    and u: "unat v = (if old < new then unat old + ceil_div (unat new - unat old) (unat d)
                  else unat old - ceil_div (unat old - unat new) (unat d))"
    by blast
  have dpos: "0 < unat d" using assms(1) by (simp add: unat_gt_0)
  have "unat v \<le> unat m"
  proof (cases "old < new")
    case True
    then have "unat old < unat new" by (simp add: word_less_nat_alt)
    moreover have "ceil_div (unat new - unat old) (unat d) \<le> unat new - unat old"
      using dpos by (rule ceil_div_le)
    moreover have "unat new \<le> unat m" using assms(2) by (simp add: word_le_nat_alt)
    ultimately show ?thesis using u True by simp
  next
    case False
    moreover have "unat old \<le> unat m" using assms(3) by (simp add: word_le_nat_alt)
    ultimately show ?thesis using u by simp
  qed
  then have "v \<le> m" by (simp add: word_le_nat_alt)
  with v show ?thesis by blast
qed

lemma count_step_range:
  fixes c :: u8
  shows "1 \<le> (if c < 40 then c + 1 else 40)" and "(if c < 40 then c + 1 else 40) \<le> 40"
proof -
  have "unat (if c < 40 then c + 1 else 40) = min (unat c + 1) 40" by (rule unat_count_step)
  then have "1 \<le> unat (if c < 40 then c + 1 else 40)" "unat (if c < 40 then c + 1 else 40) \<le> 40"
    by simp_all
  then show "1 \<le> (if c < 40 then c + 1 else 40)" "(if c < 40 then c + 1 else 40) \<le> 40"
    by (simp_all add: word_le_nat_alt)
qed

lemma burst_inv_restart_burst_raw:
  assumes "burst_inv s"
  shows "\<exists>s'. restart_burst_raw s = Some s' \<and> burst_inv s' \<and>
            prev_burst_penalty s' \<le> BORE_MAX_PENALTY \<and>
            deadline s' = deadline s \<and> vruntime s' = vruntime s"
proof -
  have nz: "burst_count s \<noteq> 0" using assms by (auto simp: burst_inv_def burst_ranges_def)
  have "curr_burst_penalty s \<le> BORE_MAX_PENALTY" "prev_burst_penalty s \<le> BORE_MAX_PENALTY"
    using assms by (simp_all add: burst_inv_def)
  from binary_smooth_bounded [OF nz this] obtain v where
    v: "binary_smooth (curr_burst_penalty s) (prev_burst_penalty s) (burst_count s) = Some v"
    and vm: "v \<le> BORE_MAX_PENALTY" by blast
  have "restart_burst_raw s = Some (s\<lparr>prev_burst_penalty := v, burst_time := 0,
        curr_burst_penalty := 0,
        burst_count := (if burst_count s < 40 then burst_count s + 1 else 40)\<rparr>)"
    by (simp add: restart_burst_raw_def v BORE_SMOOTHNESS_def)
  moreover have "burst_inv (s\<lparr>prev_burst_penalty := v, burst_time := 0,
        curr_burst_penalty := 0,
        burst_count := (if burst_count s < 40 then burst_count s + 1 else 40)\<rparr>)"
    using assms vm count_step_range [of "burst_count s"]
    by (simp add: burst_inv_def burst_ranges_def BORE_SMOOTHNESS_def)
  ultimately show ?thesis using vm by simp
qed

lemma burst_inv_restart_burst:
  assumes "reweight_keeps_burst K" and "burst_inv (se p)"
  shows "\<exists>p'. restart_burst K p = Some p' \<and> burst_inv (se p')"
proof -
  from burst_inv_restart_burst_raw [OF assms(2)] obtain s' where
    r: "restart_burst_raw (se p) = Some s'" and i: "burst_inv s'"
    and pm: "prev_burst_penalty s' \<le> BORE_MAX_PENALTY" by blast
  define q where "q = p\<lparr>se := s'\<lparr>burst_penalty := prev_burst_penalty s'\<rparr>\<rparr>"
  have "burst_inv (se q)" using i pm by (simp add: q_def burst_inv_def burst_ranges_def)
  then have "burst_inv (se (update_burst_score K q))"
    by (rule burst_inv_update_burst_score [OF assms(1)])
  moreover have "restart_burst K p = Some (update_burst_score K q)"
    by (simp add: restart_burst_def r q_def)
  ultimately show ?thesis by simp
qed

lemma burst_inv_restart_burst_rescale_deadline:
  assumes "reweight_keeps_burst K" and "burst_inv (se p)"
  shows "\<exists>p'. restart_burst_rescale_deadline K p = Some p' \<and> burst_inv (se p')"
proof -
  from burst_inv_restart_burst [OF assms] obtain p1 where
    r: "restart_burst K p = Some p1" and i: "burst_inv (se p1)" by blast
  have "burst_inv ((se p1)\<lparr>deadline := d\<rparr>)" for d
    using i by (simp add: burst_inv_def burst_ranges_def)
  then show ?thesis using i by (simp add: restart_burst_rescale_deadline_def r Let_def)
qed

lemma burst_inv_reset_task_bore: "burst_inv (se (reset_task_bore p))"
  by (simp add: reset_task_bore_def burst_inv_def burst_ranges_def BORE_SMOOTHNESS_def)

lemma unat_effective_prio:
  assumes "static_prio p - MAX_RT_PRIO K \<le> 39" and "burst_score (se p) \<le> 39"
  shows "unat (effective_prio K p) =
           min 39 (unat (static_prio p - MAX_RT_PRIO K) + unat (burst_score (se p)))"
proof -
  define x where "x = static_prio p - MAX_RT_PRIO K"
  have x: "unat x \<le> 39" using assms(1) by (simp add: x_def word_le_nat_alt)
  have s: "unat (burst_score (se p)) \<le> 39" using assms(2) by (simp add: word_le_nat_alt)
  have "unat (ucast x :: u8) = take_bit 8 (unat x)" by (simp add: unsigned_ucast_eq)
  also have "\<dots> = unat x" using x by (simp add: take_bit_eq_mod)
  finally have ux: "unat (ucast x :: u8) = unat x" .
  have "unat (ucast x + burst_score (se p)) = unat x + unat (burst_score (se p))"
    using x s by (simp add: unat_word_ariths ux)
  then show ?thesis
    by (simp add: effective_prio_def Let_def min_def word_le_nat_alt flip: x_def)
qed


lemma burst_sum_bound:
  assumes "\<forall>t. burst_penalty (se (S t)) \<le> BORE_MAX_PENALTY"
  shows "unat cnt + length ts < 2 ^ 32 \<Longrightarrow> unat sm \<le> unat cnt * 163839 \<Longrightarrow>
         unat (snd (burst_sum S ts (cnt, sm))) \<le> unat (fst (burst_sum S ts (cnt, sm))) * 163839"
proof (induction ts arbitrary: cnt sm)
  case Nil
  then show ?case by simp
next
  case (Cons t ts)
  show ?case
  proof (cases "bore_task_is_eligible (S t)")
    case False
    then show ?thesis using Cons.IH [of cnt sm] Cons.prems by simp
  next
    case True
    have c1: "unat (cnt + 1) = unat cnt + 1"
      using Cons.prems(1) by (simp add: unat_word_ariths)
    have "unat (burst_penalty (se (S t))) \<le> 163839"
      using assms by (simp add: word_le_nat_alt flip: max_penalty_val)
    moreover have "unat (sm + burst_penalty (se (S t))) \<le> unat sm + unat (burst_penalty (se (S t)))"
      by (simp add: unat_word_ariths)
    ultimately have "unat (sm + burst_penalty (se (S t))) \<le> unat (cnt + 1) * 163839"
      using Cons.prems(2) c1 by simp
    moreover have "unat (cnt + 1) + length ts < 2 ^ 32" using Cons.prems(1) c1 by simp
    ultimately show ?thesis
      using True Cons.IH [of "cnt + 1" "sm + burst_penalty (se (S t))"] by simp
  qed
qed

lemma update_burst_cache_bounded:
  assumes "unat sm \<le> unat cnt * 163839" and "burst_penalty (se p) \<le> BORE_MAX_PENALTY"
  shows "bc_value (update_burst_cache bc p cnt sm now) \<le> BORE_MAX_PENALTY"
proof -
  have "(if cnt \<noteq> 0 then sm div cnt else 0) \<le> BORE_MAX_PENALTY"
  proof (cases "cnt = 0")
    case True then show ?thesis by simp
  next
    case False
    then have pos: "0 < unat cnt" by (simp add: unat_gt_0)
    have "unat (sm div cnt) = unat sm div unat cnt" by (rule unat_div)
    also have "\<dots> \<le> unat cnt * 163839 div unat cnt" using assms(1) by (rule div_le_mono)
    also have "\<dots> = 163839" using pos by simp
    finally show ?thesis using False by (simp add: word_le_nat_alt max_penalty_val)
  qed
  then show ?thesis using assms(2) by (simp add: update_burst_cache_def Let_def)
qed

lemma tasks_inv_penalty: "tasks_inv S \<Longrightarrow> \<forall>t. burst_penalty (se (S t)) \<le> BORE_MAX_PENALTY"
  by (simp add: tasks_inv_def burst_inv_def burst_ranges_def)

lemma tasks_inv_update_child_burst_direct:
  assumes "tasks_inv S"
  shows "tasks_inv (update_child_burst_direct S p now)"
proof -
  obtain cnt sm where cs: "burst_sum S (children (S p)) (0, 0) = (cnt, sm)"
    by (cases "burst_sum S (children (S p)) (0, 0)") auto
  have "length (children (S p)) < 2 ^ 32" using assms by (simp add: tasks_inv_def)
  then have "unat (snd (burst_sum S (children (S p)) (0, 0)))
       \<le> unat (fst (burst_sum S (children (S p)) (0, 0))) * 163839"
    by (intro burst_sum_bound [OF tasks_inv_penalty [OF assms]]) simp_all
  then have "unat sm \<le> unat cnt * 163839" by (simp add: cs)
  moreover have "burst_penalty (se (S p)) \<le> BORE_MAX_PENALTY"
    using tasks_inv_penalty [OF assms] by simp
  ultimately have "bc_value (update_burst_cache (child_burst (se (S p))) (S p) cnt sm now)
      \<le> BORE_MAX_PENALTY" by (rule update_burst_cache_bounded)
  then show ?thesis
    using assms by (simp add: update_child_burst_direct_def cs tasks_inv_def burst_inv_def
        burst_ranges_def)
qed

lemma tasks_inv_update_tg_burst:
  assumes "tasks_inv S"
  shows "tasks_inv (update_tg_burst S p now)"
proof -
  obtain cnt sm where cs: "burst_sum S (thread_group (S p)) (0, 0) = (cnt, sm)"
    by (cases "burst_sum S (thread_group (S p)) (0, 0)") auto
  have "length (thread_group (S p)) < 2 ^ 32" using assms by (simp add: tasks_inv_def)
  then have "unat (snd (burst_sum S (thread_group (S p)) (0, 0)))
       \<le> unat (fst (burst_sum S (thread_group (S p)) (0, 0))) * 163839"
    by (intro burst_sum_bound [OF tasks_inv_penalty [OF assms]]) simp_all
  then have "unat sm \<le> unat cnt * 163839" by (simp add: cs)
  moreover have "burst_penalty (se (S p)) \<le> BORE_MAX_PENALTY"
    using tasks_inv_penalty [OF assms] by simp
  ultimately have "bc_value (update_burst_cache (group_burst (se (S p))) (S p) cnt sm now)
      \<le> BORE_MAX_PENALTY" by (rule update_burst_cache_bounded)
  then show ?thesis
    using assms by (simp add: update_tg_burst_def cs tasks_inv_def burst_inv_def
        burst_ranges_def)
qed

lemma tasks_inv_inherit_burst_direct:
  assumes "tasks_inv S"
  shows "tasks_inv (fst (inherit_burst_direct K S p now cf)) \<and>
         snd (inherit_burst_direct K S p now cf) \<le> BORE_MAX_PENALTY"
proof -
  define parent where "parent = (if cf AND CLONE_PARENT K \<noteq> 0 then real_parent (S p) else p)"
  define S1 where "S1 = (if bore_cache_expired (child_burst (se (S parent))) now
                then update_child_burst_direct S parent now else S)"
  have i: "tasks_inv S1"
    using assms tasks_inv_update_child_burst_direct [OF assms] by (simp add: S1_def)
  then have "bc_value (child_burst (se (S1 parent))) \<le> BORE_MAX_PENALTY"
    by (simp add: tasks_inv_def burst_inv_def)
  moreover have "inherit_burst_direct K S p now cf = (S1, bc_value (child_burst (se (S1 parent))))"
    by (simp add: inherit_burst_direct_def Let_def S1_def parent_def)
  ultimately show ?thesis using i by simp
qed

lemma tasks_inv_inherit_burst_tg:
  assumes "tasks_inv S"
  shows "tasks_inv (fst (inherit_burst_tg S p now)) \<and>
         snd (inherit_burst_tg S p now) \<le> BORE_MAX_PENALTY"
proof -
  define parent where "parent = group_leader (S p)"
  define S1 where "S1 = (if bore_cache_expired (group_burst (se (S parent))) now
                then update_tg_burst S parent now else S)"
  have i: "tasks_inv S1"
    using assms tasks_inv_update_tg_burst [OF assms] by (simp add: S1_def)
  then have "bc_value (group_burst (se (S1 parent))) \<le> BORE_MAX_PENALTY"
    by (simp add: tasks_inv_def burst_inv_def)
  moreover have "inherit_burst_tg S p now = (S1, bc_value (group_burst (se (S1 parent))))"
    by (simp add: inherit_burst_tg_def Let_def S1_def parent_def)
  ultimately show ?thesis using i by simp
qed

lemma tasks_inv_sched_clone_bore:
  assumes "tasks_inv S"
  shows "\<exists>S'. sched_clone_bore K S p parent cf now = Some S' \<and> tasks_inv S'"
proof (cases "bore_task_is_eligible (S p)")
  case False
  then show ?thesis using assms by (simp add: sched_clone_bore_def)
next
  case True
  define r where "r = (if cf AND CLONE_THREAD K \<noteq> 0 then inherit_burst_tg S parent now
                       else inherit_burst_direct K S parent now cf)"
  obtain S1 penalty where r: "r = (S1, penalty)" by (cases r) auto
  have "tasks_inv (fst r) \<and> snd r \<le> BORE_MAX_PENALTY"
    using tasks_inv_inherit_burst_tg [OF assms] tasks_inv_inherit_burst_direct [OF assms]
    by (simp add: r_def)
  then have i1: "tasks_inv S1" and pm: "penalty \<le> BORE_MAX_PENALTY" by (simp_all add: r)
  have "burst_inv (se (S1 p))" using i1 by (simp add: tasks_inv_def)
  from burst_inv_restart_burst_raw [OF this] obtain s where
    s: "restart_burst_raw (se (S1 p)) = Some s" and si: "burst_inv s"
    and sp: "prev_burst_penalty s \<le> BORE_MAX_PENALTY" by blast
  define v where "v = max (prev_burst_penalty s) penalty"
  have vm: "v \<le> BORE_MAX_PENALTY" using sp pm by (simp add: v_def)
  define S' where "S' = S1(p := (S1 p)\<lparr>se := s\<lparr>prev_burst_penalty := v, burst_penalty := v,
       burst_count := 1, child_burst := (child_burst s)\<lparr>bc_timestamp := 0\<rparr>,
       group_burst := (group_burst s)\<lparr>bc_timestamp := 0\<rparr>\<rparr>\<rparr>)"
  have "sched_clone_bore K S p parent cf now = Some S'"
    using True r s by (simp add: sched_clone_bore_def Let_def S'_def v_def flip: r_def)
  moreover have "tasks_inv S'"
    using i1 si vm
    by (simp add: S'_def tasks_inv_def burst_inv_def burst_ranges_def BORE_SMOOTHNESS_def)
  ultimately show ?thesis by blast
qed


text \<open>
  C2. Every operation of the burst state machine (\<open>update_curr_bore\<close>, \<open>restart_burst\<close>,
  \<open>restart_burst_rescale_deadline\<close>, \<open>sched_clone_bore\<close>, \<open>reset_task_bore\<close>) returns
  normally and preserves the invariant of a task's burst record, which holds after
  \<open>reset_task_bore\<close> and contains the three ranges \<open>burst_penalty \<le> BORE_MAX_PENALTY\<close>,
  \<open>burst_score \<le> 39\<close> and \<open>1 \<le> burst_count \<le> 40\<close>. The ranges are carried by the bounds
  on the penalties and cached values that the operations read (\<open>burst_inv\<close>); for the
  fork the invariant is that of all tasks. Under the invariant the effective priority is
  the static priority (relative to \<open>MAX_RT_PRIO\<close>, in \<open>0..39\<close>) plus \<open>burst_score\<close>, clamped
  to at most 39, with no wrap-around of the \<open>u8\<close> arithmetic.
\<close>

theorem burst_invariant_preserved:
  assumes "reweight_keeps_burst K"
  shows "(burst_inv (se p) \<longrightarrow>
            (\<exists>p'. update_curr_bore K delta_exec p = Some p' \<and> burst_inv (se p'))) \<and>
         (burst_inv (se p) \<longrightarrow>
            (\<exists>p'. restart_burst K p = Some p' \<and> burst_inv (se p'))) \<and>
         (burst_inv (se p) \<longrightarrow>
            (\<exists>p'. restart_burst_rescale_deadline K p = Some p' \<and> burst_inv (se p'))) \<and>
         (tasks_inv S \<longrightarrow>
            (\<exists>S'. sched_clone_bore K S t parent clone_flags now = Some S' \<and> tasks_inv S')) \<and>
         burst_inv (se (reset_task_bore p)) \<and>
         (burst_inv (se p) \<longrightarrow> burst_ranges (se p)) \<and>
         (burst_inv (se p) \<and> static_prio p - MAX_RT_PRIO K \<le> 39 \<longrightarrow>
            unat (effective_prio K p) =
              min 39 (unat (static_prio p - MAX_RT_PRIO K) + unat (burst_score (se p))))"
proof (intro conjI impI)
  assume "burst_inv (se p)"
  then show "\<exists>p'. update_curr_bore K delta_exec p = Some p' \<and> burst_inv (se p')"
    by (rule burst_inv_update_curr_bore [OF assms])
next
  assume "burst_inv (se p)"
  then show "\<exists>p'. restart_burst K p = Some p' \<and> burst_inv (se p')"
    by (rule burst_inv_restart_burst [OF assms])
next
  assume "burst_inv (se p)"
  then show "\<exists>p'. restart_burst_rescale_deadline K p = Some p' \<and> burst_inv (se p')"
    by (rule burst_inv_restart_burst_rescale_deadline [OF assms])
next
  assume "tasks_inv S"
  then show "\<exists>S'. sched_clone_bore K S t parent clone_flags now = Some S' \<and> tasks_inv S'"
    by (rule tasks_inv_sched_clone_bore)
next
  show "burst_inv (se (reset_task_bore p))" by (rule burst_inv_reset_task_bore)
next
  assume "burst_inv (se p)"
  then show "burst_ranges (se p)" by (simp add: burst_inv_def)
next
  assume a: "burst_inv (se p) \<and> static_prio p - MAX_RT_PRIO K \<le> 39"
  then have "burst_score (se p) \<le> 39" by (simp add: burst_inv_def burst_ranges_def)
  with a show "unat (effective_prio K p) =
      min 39 (unat (static_prio p - MAX_RT_PRIO K) + unat (burst_score (se p)))"
    by (simp add: unat_effective_prio)
qed

theorem burst_invariant_preserved_witness:
  "reweight_keeps_burst host0 \<and> burst_inv (se task0) \<and> tasks_inv (\<lambda>t. task0) \<and>
   static_prio task0 - MAX_RT_PRIO host0 \<le> 39 \<and>
   (\<exists>p'. update_curr_bore host0 1068741824 task0 = Some p' \<and> burst_inv (se p')) \<and>
   (\<exists>p'. restart_burst host0 task0 = Some p' \<and> burst_inv (se p')) \<and>
   (\<exists>p'. restart_burst_rescale_deadline host0 task0 = Some p' \<and> burst_inv (se p')) \<and>
   (\<exists>S'. sched_clone_bore host0 (\<lambda>t. task0) 1 0 0 0 = Some S' \<and> tasks_inv S') \<and>
   burst_inv (se (reset_task_bore task0)) \<and>
   burst_ranges (se task0) \<and>
   unat (effective_prio host0 task0) = 20"
proof -
  have k: "reweight_keeps_burst host0" by (rule host0_simps)
  have i: "burst_inv (se task0)"
    by (simp add: task0_simps burst_inv_def burst_ranges_def BORE_SMOOTHNESS_def
        BORE_MAX_PENALTY_def BORE_PENALTY_SHIFT_def entity0_def cache0_def)
  have t: "tasks_inv (\<lambda>t. task0)" using i by (simp add: tasks_inv_def task0_def)
  have s: "static_prio task0 - MAX_RT_PRIO host0 \<le> 39" by (simp add: task0_simps host0_simps)
  show ?thesis
    using burst_invariant_preserved [OF k, of task0 1068741824 "\<lambda>t. task0" 1 0 0 0] k i t s
    by (simp add: task0_simps host0_simps)
qed


section \<open>Repeated restarts converge\<close>

lemma restart_step:
  assumes k: "reweight_keeps_burst K" and c1: "1 \<le> burst_count (se q)"
    and cc: "curr_burst_penalty (se q) = c"
  shows "\<exists>p'. restart_burst K q = Some p' \<and>
      penalty_gap c (prev_burst_penalty (se p')) =
        penalty_gap c (prev_burst_penalty (se q)) -
        ceil_div (penalty_gap c (prev_burst_penalty (se q))) (unat (burst_count (se q))) \<and>
      (prev_burst_penalty (se q) \<le> c \<longrightarrow>
         prev_burst_penalty (se q) \<le> prev_burst_penalty (se p') \<and> prev_burst_penalty (se p') \<le> c) \<and>
      (c \<le> prev_burst_penalty (se q) \<longrightarrow>
         c \<le> prev_burst_penalty (se p') \<and> prev_burst_penalty (se p') \<le> prev_burst_penalty (se q)) \<and>
      1 \<le> burst_count (se p') \<and>
      unat (burst_count (se p')) = min (unat (burst_count (se q)) + 1) 40"
proof -
  define x where "x = prev_burst_penalty (se q)"
  define d where "d = unat (burst_count (se q))"
  have dpos: "0 < d" using c1 by (auto simp: d_def word_le_nat_alt)
  from restart_burst_fields [OF k c1] obtain p' where
    r: "restart_burst K q = Some p'"
    and u: "unat (prev_burst_penalty (se p')) =
       (if x < c then unat x + ceil_div (unat c - unat x) d
        else unat x - ceil_div (unat x - unat c) d)"
    and n: "unat (burst_count (se p')) = min (unat (burst_count (se q)) + 1) 40"
    unfolding x_def d_def cc by blast
  define y where "y = prev_burst_penalty (se p')"
  have cnt: "1 \<le> burst_count (se p')" using n by (simp add: word_le_nat_alt)
  have main: "penalty_gap c y = penalty_gap c x - ceil_div (penalty_gap c x) d \<and>
      (x \<le> c \<longrightarrow> x \<le> y \<and> y \<le> c) \<and> (c \<le> x \<longrightarrow> c \<le> y \<and> y \<le> x)"
  proof (cases "x < c")
    case True
    then have lt: "unat x < unat c" by (simp add: word_less_nat_alt)
    have le: "ceil_div (unat c - unat x) d \<le> unat c - unat x" using dpos by (rule ceil_div_le)
    have uy: "unat y = unat x + ceil_div (unat c - unat x) d" using u True by (simp add: y_def)
    have g: "penalty_gap c x = unat c - unat x" using True by (simp add: penalty_gap_def)
    have "unat y \<le> unat c" using uy le lt by linarith
    then have gy: "penalty_gap c y = unat c - unat y"
      by (auto simp: penalty_gap_def word_less_nat_alt)
    have "penalty_gap c y = penalty_gap c x - ceil_div (penalty_gap c x) d"
      using uy le lt unfolding gy g by linarith
    moreover have "x \<le> y" "y \<le> c" using uy le lt by (simp_all add: word_le_nat_alt)
    moreover have "\<not> c \<le> x" using True by simp
    ultimately show ?thesis by simp
  next
    case False
    then have ge: "unat c \<le> unat x" by (simp add: word_less_nat_alt)
    have le: "ceil_div (unat x - unat c) d \<le> unat x - unat c" using dpos by (rule ceil_div_le)
    have uy: "unat y = unat x - ceil_div (unat x - unat c) d" using u False by (simp add: y_def)
    have g: "penalty_gap c x = unat x - unat c" using False by (simp add: penalty_gap_def)
    have yc: "unat c \<le> unat y" using uy le ge by linarith
    then have gy: "penalty_gap c y = unat y - unat c"
      by (auto simp: penalty_gap_def word_less_nat_alt)
    have "penalty_gap c y = penalty_gap c x - ceil_div (penalty_gap c x) d"
      using uy le ge unfolding gy g by linarith
    moreover have "c \<le> y" "y \<le> x" using uy yc by (simp_all add: word_le_nat_alt)
    moreover have "x \<le> c \<longrightarrow> x = c" using False by auto
    ultimately show ?thesis by auto
  qed
  show ?thesis using r main cnt n unfolding x_def y_def d_def by blast
qed

lemma penalty_gap_0: "penalty_gap c x = 0 \<longleftrightarrow> x = c"
  by (auto simp: penalty_gap_def word_less_nat_alt word_unat_eq_iff)

lemma restart_n_progress:
  assumes k: "reweight_keeps_burst K" and c1: "1 \<le> burst_count (se p)"
  shows "\<exists>p'. restart_n K c n p = Some p' \<and> 1 \<le> burst_count (se p') \<and>
      penalty_gap c (prev_burst_penalty (se p')) \<le> penalty_gap c (prev_burst_penalty (se p)) - n"
proof (induction n)
  case 0
  then show ?case using c1 by simp
next
  case (Suc n)
  then obtain q where q: "restart_n K c n p = Some q" and qc: "1 \<le> burst_count (se q)"
    and qg: "penalty_gap c (prev_burst_penalty (se q))
        \<le> penalty_gap c (prev_burst_penalty (se p)) - n" by blast
  define q' where "q' = q\<lparr>se := (se q)\<lparr>curr_burst_penalty := c\<rparr>\<rparr>"
  have "1 \<le> burst_count (se q')" "curr_burst_penalty (se q') = c" using qc by (simp_all add: q'_def)
  from restart_step [OF k this] obtain p' where
    r: "restart_burst K q' = Some p'"
    and g: "penalty_gap c (prev_burst_penalty (se p')) =
        penalty_gap c (prev_burst_penalty (se q)) -
        ceil_div (penalty_gap c (prev_burst_penalty (se q))) (unat (burst_count (se q)))"
    and pc: "1 \<le> burst_count (se p')"
    by (auto simp: q'_def)
  have dpos: "0 < unat (burst_count (se q))" using qc by (auto simp: word_le_nat_alt)
  have "penalty_gap c (prev_burst_penalty (se p')) \<le> penalty_gap c (prev_burst_penalty (se q)) - 1"
  proof (cases "penalty_gap c (prev_burst_penalty (se q)) = 0")
    case True then show ?thesis using g by simp
  next
    case False
    then have "0 < ceil_div (penalty_gap c (prev_burst_penalty (se q))) (unat (burst_count (se q)))"
      using dpos by (simp add: ceil_div_pos)
    then show ?thesis using g by linarith
  qed
  then have "penalty_gap c (prev_burst_penalty (se p'))
      \<le> penalty_gap c (prev_burst_penalty (se p)) - Suc n" using qg by linarith
  moreover have "restart_n K c (Suc n) p = Some p'" by (simp add: q r flip: q'_def)
  ultimately show ?case using pc by blast
qed


text \<open>
  C8 (amended). If \<open>restart_burst\<close> is applied repeatedly to a burst record with
  \<open>burst_count \<ge> 1\<close> while \<open>curr_burst_penalty\<close> holds the same value \<open>c\<close> before each call,
  then every call succeeds and moves \<open>prev_burst_penalty\<close> toward \<open>c\<close> by exactly
  \<open>ceil (distance / burst_count)\<close>: it stays between its old value and \<open>c\<close>, and its distance
  to \<open>c\<close> strictly decreases unless it already is \<open>c\<close>. After \<open>n\<close> calls the distance is at
  most the initial distance minus \<open>n\<close>, so \<open>prev_burst_penalty\<close> reaches \<open>c\<close> after at most
  \<open>|c - prev_burst_penalty|\<close> calls (after the first one when \<open>burst_count = 1\<close>) and stays
  there.
\<close>

theorem restart_converges:
  assumes "reweight_keeps_burst K" and "1 \<le> burst_count (se p)"
  shows "\<exists>p' p''. restart_n K c n p = Some p' \<and> restart_n K c (Suc n) p = Some p'' \<and>
      1 \<le> burst_count (se p') \<and>
      penalty_gap c (prev_burst_penalty (se p'')) =
        penalty_gap c (prev_burst_penalty (se p')) -
        ceil_div (penalty_gap c (prev_burst_penalty (se p'))) (unat (burst_count (se p'))) \<and>
      min (prev_burst_penalty (se p')) c \<le> prev_burst_penalty (se p'') \<and>
      prev_burst_penalty (se p'') \<le> max (prev_burst_penalty (se p')) c \<and>
      (penalty_gap c (prev_burst_penalty (se p'')) < penalty_gap c (prev_burst_penalty (se p')) \<or>
       prev_burst_penalty (se p') = c) \<and>
      penalty_gap c (prev_burst_penalty (se p')) \<le> penalty_gap c (prev_burst_penalty (se p)) - n"
proof -
  from restart_n_progress [OF assms, of c n] obtain p' where
    n: "restart_n K c n p = Some p'" and pc: "1 \<le> burst_count (se p')"
    and pg: "penalty_gap c (prev_burst_penalty (se p'))
        \<le> penalty_gap c (prev_burst_penalty (se p)) - n" by blast
  define q where "q = p'\<lparr>se := (se p')\<lparr>curr_burst_penalty := c\<rparr>\<rparr>"
  define x where "x = prev_burst_penalty (se p')"
  have "1 \<le> burst_count (se q)" "curr_burst_penalty (se q) = c" using pc by (simp_all add: q_def)
  from restart_step [OF assms(1) this] obtain p'' where
    r: "restart_burst K q = Some p''"
    and g: "penalty_gap c (prev_burst_penalty (se p'')) =
        penalty_gap c x - ceil_div (penalty_gap c x) (unat (burst_count (se p')))"
    and b1: "x \<le> c \<longrightarrow> x \<le> prev_burst_penalty (se p'') \<and> prev_burst_penalty (se p'') \<le> c"
    and b2: "c \<le> x \<longrightarrow> c \<le> prev_burst_penalty (se p'') \<and> prev_burst_penalty (se p'') \<le> x"
    by (auto simp: q_def x_def)
  have s: "restart_n K c (Suc n) p = Some p''" by (simp add: n r flip: q_def)
  have dpos: "0 < unat (burst_count (se p'))" using pc by (auto simp: word_le_nat_alt)
  have strict: "penalty_gap c (prev_burst_penalty (se p'')) < penalty_gap c x \<or> x = c"
  proof (cases "x = c")
    case True then show ?thesis by simp
  next
    case False
    then have "0 < penalty_gap c x" using penalty_gap_0 [of c x] by simp
    then have "0 < ceil_div (penalty_gap c x) (unat (burst_count (se p')))"
      using dpos by (simp add: ceil_div_pos)
    then show ?thesis using g \<open>0 < penalty_gap c x\<close> by linarith
  qed
  have between: "min x c \<le> prev_burst_penalty (se p'') \<and> prev_burst_penalty (se p'') \<le> max x c"
  proof (cases "x \<le> c")
    case True then show ?thesis using b1 by (simp add: min_def max_def)
  next
    case False
    then have "c \<le> x" by simp
    then show ?thesis using b2 False by (simp add: min_def max_def)
  qed
  show ?thesis
    using n s pc g strict between pg unfolding x_def by blast
qed

theorem restart_converges_witness:
  "reweight_keeps_burst host0 \<and> 1 \<le> burst_count (se task0) \<and>
   (\<exists>p' p''. restart_n host0 1001 1 task0 = Some p' \<and> restart_n host0 1001 (Suc 1) task0 = Some p'' \<and>
      prev_burst_penalty (se task0) = 1000 \<and>
      prev_burst_penalty (se p') = 1001 \<and> prev_burst_penalty (se p'') = 1001)"
proof -
  have k: "reweight_keeps_burst host0" by (rule host0_simps)
  have c: "1 \<le> burst_count (se task0)" by (simp add: task0_simps)
  from restart_converges [OF k c, of 1001 1] obtain p' p'' where
    n: "restart_n host0 1001 1 task0 = Some p'" and s: "restart_n host0 1001 (Suc 1) task0 = Some p''"
    and b: "min (prev_burst_penalty (se p')) 1001 \<le> prev_burst_penalty (se p'')"
       "prev_burst_penalty (se p'') \<le> max (prev_burst_penalty (se p')) 1001"
    and g: "penalty_gap 1001 (prev_burst_penalty (se p'))
        \<le> penalty_gap 1001 (prev_burst_penalty (se task0)) - 1"
    by blast
  have "penalty_gap 1001 (prev_burst_penalty (se task0)) = 1"
    by (simp add: penalty_gap_def task0_simps)
  with g have "penalty_gap 1001 (prev_burst_penalty (se p')) = 0" by simp
  then have e: "prev_burst_penalty (se p') = 1001" by (simp only: penalty_gap_0)
  with b have "prev_burst_penalty (se p'') = 1001" by simp
  with n s e k c show ?thesis by (simp add: task0_simps)
qed

lemma restart_once_task40:
  "restart_n host0 100000 (Suc 0) task40 =
     Some (task40\<lparr>se := (se task40)\<lparr>prev_burst_penalty := 2500, burst_time := 0,
        curr_burst_penalty := 0, burst_count := 40, burst_penalty := 2500\<rparr>\<rparr>)"
  by (simp add: restart_burst_def restart_burst_raw_def binary_smooth_def Let_def
      update_burst_score_def effective_prio_def task40_def task0_def entity0_def host0_def
      BORE_SMOOTHNESS_def BORE_PENALTY_SHIFT_def)

text \<open>
  C8 as stated fails: on a record whose window is already saturated (\<open>burst_count = 40\<close>,
  \<open>prev_burst_penalty = 0\<close>) one restart toward \<open>c = 100000\<close> leaves \<open>burst_count = 40\<close> and
  \<open>prev_burst_penalty = 2500\<close>, which neither is \<open>c\<close> nor lies within
  \<open>ceil (97500 / 40) = 2438\<close> of it.
\<close>

theorem restart_converges_counterexample:
  "map_option (burst_count \<circ> se) (restart_n host0 100000 (Suc 0) task40) = Some 40 \<and>
   map_option (prev_burst_penalty \<circ> se) (restart_n host0 100000 (Suc 0) task40) = Some 2500 \<and>
   map_option (within_one_step 100000 \<circ> se) (restart_n host0 100000 (Suc 0) task40) = Some False"
  by (simp only: restart_once_task40) (simp add: within_one_step_def penalty_gap_def ceil_div_def)


section \<open>Fork\<close>


















section \<open>Placement\<close>

lemma for_each_cpu_set: "set (for_each_cpu nr m) = {c. c < nr \<and> m c}"
  by (auto simp: for_each_cpu_def)

lemma for_each_cpu_sorted: "sorted_wrt (<) (for_each_cpu nr m)"
  by (simp add: for_each_cpu_def sorted_wrt_filter)

lemma cpumask_first_least:
  assumes "c < nr" "m c"
  shows "cpumask_first nr m < nr \<and> m (cpumask_first nr m) \<and> cpumask_first nr m \<le> c"
proof -
  have c: "c \<in> set (for_each_cpu nr m)" using assms by (simp add: for_each_cpu_set)
  then obtain x xs where x: "for_each_cpu nr m = x # xs" by (cases "for_each_cpu nr m") auto
  have "x \<in> set (for_each_cpu nr m)" by (simp add: x)
  then have "x < nr" "m x" by (simp_all add: for_each_cpu_set)
  moreover have "x \<le> c" using c for_each_cpu_sorted [of nr m] by (auto simp: x)
  ultimately show ?thesis by (simp add: cpumask_first_def x)
qed

text \<open>
  C9. When no allowed CPU of the task is active, both placement functions return the
  first CPU of the task's allowed set; that CPU is the lowest-numbered allowed one,
  and it is not active.
\<close>

theorem select_fallback_first_allowed:
  assumes "cpumask_empty (nr_cpu_ids E) (cpumask_and (cpus_ptr p) (cpu_active_mask E))"
  shows "sss_select_task_rq_fair K E p prev_cpu wake_flags =
           cpumask_first (nr_cpu_ids E) (cpus_ptr p) \<and>
         sss_select_task_rq_rt K E p prev_cpu wake_flags =
           cpumask_first (nr_cpu_ids E) (cpus_ptr p) \<and>
         (c < nr_cpu_ids E \<and> cpus_ptr p c \<longrightarrow>
            cpus_ptr p (cpumask_first (nr_cpu_ids E) (cpus_ptr p)) \<and>
            cpumask_first (nr_cpu_ids E) (cpus_ptr p) \<le> c \<and>
            \<not> cpu_active_mask E (cpumask_first (nr_cpu_ids E) (cpus_ptr p)))"
proof (intro conjI impI)
  show "sss_select_task_rq_fair K E p prev_cpu wake_flags =
           cpumask_first (nr_cpu_ids E) (cpus_ptr p)"
    using assms by (simp add: sss_select_task_rq_fair_def)
  show "sss_select_task_rq_rt K E p prev_cpu wake_flags =
           cpumask_first (nr_cpu_ids E) (cpus_ptr p)"
    using assms by (simp add: sss_select_task_rq_rt_def)
next
  assume a: "c < nr_cpu_ids E \<and> cpus_ptr p c"
  then have f: "cpumask_first (nr_cpu_ids E) (cpus_ptr p) < nr_cpu_ids E"
    "cpus_ptr p (cpumask_first (nr_cpu_ids E) (cpus_ptr p))"
    "cpumask_first (nr_cpu_ids E) (cpus_ptr p) \<le> c"
    using cpumask_first_least [of c "nr_cpu_ids E" "cpus_ptr p"] by simp_all
  have "{x. x < nr_cpu_ids E \<and> cpus_ptr p x \<and> cpu_active_mask E x} = {}"
    using assms by (simp add: cpumask_empty_def cpumask_and_def flip: for_each_cpu_set)
  then have "\<not> cpu_active_mask E (cpumask_first (nr_cpu_ids E) (cpus_ptr p))"
    using f by blast
  with f show "cpus_ptr p (cpumask_first (nr_cpu_ids E) (cpus_ptr p))"
    "cpumask_first (nr_cpu_ids E) (cpus_ptr p) \<le> c"
    "\<not> cpu_active_mask E (cpumask_first (nr_cpu_ids E) (cpus_ptr p))" by simp_all
qed

lemma for_each_cpu_2: "for_each_cpu 2 m = (if m 0 then [0] else []) @ (if m 1 then [1] else [])"
proof -
  have "[0..<2] = [0, 1]" by (simp add: upt_rec)
  then show ?thesis by (simp add: for_each_cpu_def)
qed

theorem select_fallback_first_allowed_witness:
  "cpumask_empty (nr_cpu_ids sss_one_active)
     (cpumask_and (cpus_ptr task_pinned) (cpu_active_mask sss_one_active)) \<and>
   (1::nat) < nr_cpu_ids sss_one_active \<and> cpus_ptr task_pinned 1 \<and>
   sss_select_task_rq_fair host0 sss_one_active task_pinned 0 0 = 1 \<and>
   sss_select_task_rq_rt host0 sss_one_active task_pinned 0 0 = 1 \<and>
   \<not> cpu_active_mask sss_one_active 1"
proof -
  have n: "nr_cpu_ids sss_one_active = 2" by (simp add: sss_one_active_def sss0_def)
  have e: "cpumask_empty (nr_cpu_ids sss_one_active)
     (cpumask_and (cpus_ptr task_pinned) (cpu_active_mask sss_one_active))"
    by (simp only: n) (simp add: cpumask_empty_def for_each_cpu_2 cpumask_and_def
        task_pinned_def sss_one_active_def)
  have f: "cpumask_first (nr_cpu_ids sss_one_active) (cpus_ptr task_pinned) = 1"
    by (simp only: n) (simp add: cpumask_first_def for_each_cpu_2 task_pinned_def)
  show ?thesis
    using select_fallback_first_allowed [OF e, of host0 0 0 1] e
    by (simp only: f n) (simp add: task_pinned_def sss_one_active_def)
qed


lemma fold_gen_pick:
  "(fold (gen_pick g f) xs b = b \<and> (\<forall>c\<in>set xs. g (f c) \<le> g (factor b))) \<or>
   (\<exists>ys zs. xs = ys @ cpu (fold (gen_pick g f) xs b) # zs \<and>
      factor (fold (gen_pick g f) xs b) = f (cpu (fold (gen_pick g f) xs b)) \<and>
      g (factor b) < g (f (cpu (fold (gen_pick g f) xs b))) \<and>
      (\<forall>c\<in>set ys. g (f c) < g (f (cpu (fold (gen_pick g f) xs b)))) \<and>
      (\<forall>c\<in>set zs. g (f c) \<le> g (f (cpu (fold (gen_pick g f) xs b)))))"
proof (induction xs arbitrary: b)
  case Nil
  then show ?case by simp
next
  case (Cons x xs)
  define b1 where "b1 = gen_pick g f x b"
  define r where "r = fold (gen_pick g f) xs b1"
  have fr: "fold (gen_pick g f) (x # xs) b = r" by (simp add: r_def b1_def)
  from Cons.IH [of b1] have ih:
    "(r = b1 \<and> (\<forall>c\<in>set xs. g (f c) \<le> g (factor b1))) \<or>
     (\<exists>ys zs. xs = ys @ cpu r # zs \<and> factor r = f (cpu r) \<and> g (factor b1) < g (f (cpu r)) \<and>
        (\<forall>c\<in>set ys. g (f c) < g (f (cpu r))) \<and> (\<forall>c\<in>set zs. g (f c) \<le> g (f (cpu r))))"
    by (simp add: r_def)
  show ?case
  proof (cases "g (factor b) < g (f x)")
    case True
    then have b1: "b1 = \<lparr>factor = f x, cpu = x\<rparr>" by (simp add: b1_def gen_pick_def)
    from ih show ?thesis
    proof
      assume a: "r = b1 \<and> (\<forall>c\<in>set xs. g (f c) \<le> g (factor b1))"
      then have "x # xs = [] @ cpu r # xs" "factor r = f (cpu r)" "g (factor b) < g (f (cpu r))"
        "\<forall>c\<in>set xs. g (f c) \<le> g (f (cpu r))"
        using True by (simp_all add: b1)
      then show ?thesis unfolding fr by (intro disjI2 exI [of _ "[]"] exI [of _ xs]) simp
    next
      assume "\<exists>ys zs. xs = ys @ cpu r # zs \<and> factor r = f (cpu r) \<and> g (factor b1) < g (f (cpu r)) \<and>
        (\<forall>c\<in>set ys. g (f c) < g (f (cpu r))) \<and> (\<forall>c\<in>set zs. g (f c) \<le> g (f (cpu r)))"
      then obtain ys zs where yz: "xs = ys @ cpu r # zs" "factor r = f (cpu r)"
        "g (factor b1) < g (f (cpu r))" "\<forall>c\<in>set ys. g (f c) < g (f (cpu r))"
        "\<forall>c\<in>set zs. g (f c) \<le> g (f (cpu r))" by blast
      have "g (f x) < g (f (cpu r))" using yz(3) by (simp add: b1)
      then have "x # xs = (x # ys) @ cpu r # zs" "g (factor b) < g (f (cpu r))"
        "\<forall>c\<in>set (x # ys). g (f c) < g (f (cpu r))"
        using yz True by simp_all
      then show ?thesis unfolding fr using yz(2,5)
        by (intro disjI2 exI [of _ "x # ys"] exI [of _ zs]) simp
    qed
  next
    case False
    then have b1: "b1 = b" by (simp add: b1_def gen_pick_def)
    from ih show ?thesis
    proof
      assume "r = b1 \<and> (\<forall>c\<in>set xs. g (f c) \<le> g (factor b1))"
      then show ?thesis unfolding fr using False by (simp add: b1)
    next
      assume "\<exists>ys zs. xs = ys @ cpu r # zs \<and> factor r = f (cpu r) \<and> g (factor b1) < g (f (cpu r)) \<and>
        (\<forall>c\<in>set ys. g (f c) < g (f (cpu r))) \<and> (\<forall>c\<in>set zs. g (f c) \<le> g (f (cpu r)))"
      then obtain ys zs where yz: "xs = ys @ cpu r # zs" "factor r = f (cpu r)"
        "g (factor b1) < g (f (cpu r))" "\<forall>c\<in>set ys. g (f c) < g (f (cpu r))"
        "\<forall>c\<in>set zs. g (f c) \<le> g (f (cpu r))" by blast
      have "g (f x) < g (f (cpu r))" using yz(3) False by (simp add: b1)
      then have "x # xs = (x # ys) @ cpu r # zs" "g (factor b) < g (f (cpu r))"
        "\<forall>c\<in>set (x # ys). g (f c) < g (f (cpu r))"
        using yz by (simp_all add: b1)
      then show ?thesis unfolding fr using yz(2,5)
        by (intro disjI2 exI [of _ "x # ys"] exI [of _ zs]) simp
    qed
  qed
qed

lemma first_best:
  assumes s: "sorted_wrt (<) xs"
  shows "(fold (gen_pick g f) xs b = b \<and> (\<forall>c\<in>set xs. g (f c) \<le> g (factor b))) \<or>
     (cpu (fold (gen_pick g f) xs b) \<in> set xs \<and>
      g (factor b) < g (f (cpu (fold (gen_pick g f) xs b))) \<and>
      (\<forall>c\<in>set xs. g (f c) \<le> g (f (cpu (fold (gen_pick g f) xs b))) \<and>
         (c < cpu (fold (gen_pick g f) xs b) \<longrightarrow> g (f c) < g (f (cpu (fold (gen_pick g f) xs b))))))"
proof -
  define r where "r = fold (gen_pick g f) xs b"
  from fold_gen_pick [of g f xs b] show ?thesis
  proof
    assume "fold (gen_pick g f) xs b = b \<and> (\<forall>c\<in>set xs. g (f c) \<le> g (factor b))"
    then show ?thesis by simp
  next
    assume "\<exists>ys zs. xs = ys @ cpu (fold (gen_pick g f) xs b) # zs \<and>
      factor (fold (gen_pick g f) xs b) = f (cpu (fold (gen_pick g f) xs b)) \<and>
      g (factor b) < g (f (cpu (fold (gen_pick g f) xs b))) \<and>
      (\<forall>c\<in>set ys. g (f c) < g (f (cpu (fold (gen_pick g f) xs b)))) \<and>
      (\<forall>c\<in>set zs. g (f c) \<le> g (f (cpu (fold (gen_pick g f) xs b))))"
    then obtain ys zs where yz: "xs = ys @ cpu r # zs" "g (factor b) < g (f (cpu r))"
      "\<forall>c\<in>set ys. g (f c) < g (f (cpu r))" "\<forall>c\<in>set zs. g (f c) \<le> g (f (cpu r))"
      unfolding r_def by blast
    have after: "\<forall>c\<in>set zs. cpu r < c" using s by (simp add: yz(1) sorted_wrt_append)
    have "cpu r \<in> set xs" by (simp add: yz(1))
    moreover have "\<forall>c\<in>set xs. g (f c) \<le> g (f (cpu r)) \<and> (c < cpu r \<longrightarrow> g (f c) < g (f (cpu r)))"
    proof
      fix c assume "c \<in> set xs"
      then consider "c \<in> set ys" | "c = cpu r" | "c \<in> set zs" by (auto simp: yz(1))
      then show "g (f c) \<le> g (f (cpu r)) \<and> (c < cpu r \<longrightarrow> g (f c) < g (f (cpu r)))"
      proof cases
        case 1 then show ?thesis using yz(3) by (simp add: less_imp_le)
      next
        case 2 then show ?thesis by simp
      next
        case 3 then show ?thesis using yz(4) after by (auto dest: less_asym)
      qed
    qed
    ultimately show ?thesis using yz(2) unfolding r_def by blast
  qed
qed

lemma fair_pick_gen: "fair_pick f = gen_pick sint f"
  by (intro ext) (simp add: fair_pick_def gen_pick_def Let_def word_sless_alt)



lemma fair_select_cases:
  assumes "\<not> cpumask_empty (nr_cpu_ids E) (cpumask_and (cpus_ptr p) (cpu_active_mask E))"
    and "\<not> fair_fast_path K E p wake_flags"
  shows "(sss_select_task_rq_fair K E p prev_cpu wake_flags = prev_cpu \<and>
          (\<forall>c\<in>set (fair_candidates E p). fair_score K E p prev_cpu wake_flags c \<le>s 0)) \<or>
         (sss_select_task_rq_fair K E p prev_cpu wake_flags \<in> set (fair_candidates E p) \<and>
          0 <s fair_score K E p prev_cpu wake_flags
                 (sss_select_task_rq_fair K E p prev_cpu wake_flags) \<and>
          (\<forall>c\<in>set (fair_candidates E p).
             fair_score K E p prev_cpu wake_flags c \<le>s
               fair_score K E p prev_cpu wake_flags
                 (sss_select_task_rq_fair K E p prev_cpu wake_flags) \<and>
             (c < sss_select_task_rq_fair K E p prev_cpu wake_flags \<longrightarrow>
                fair_score K E p prev_cpu wake_flags c <s
                  fair_score K E p prev_cpu wake_flags
                    (sss_select_task_rq_fair K E p prev_cpu wake_flags))))"
proof -
  define f where "f = fair_score K E p prev_cpu wake_flags"
  define xs where "xs = fair_candidates E p"
  define b where "b = \<lparr>factor = 0, cpu = prev_cpu\<rparr>"
  have r: "sss_select_task_rq_fair K E p prev_cpu wake_flags = cpu (fold (gen_pick sint f) xs b)"
    using assms
    by (simp add: sss_select_task_rq_fair_def Let_def fair_pick_gen f_def xs_def b_def
        fair_candidates_def)
  have s: "sorted_wrt (<) xs" by (simp add: xs_def fair_candidates_def for_each_cpu_sorted)
  from first_best [OF s, of sint f b] show ?thesis
    unfolding r f_def [symmetric] xs_def [symmetric]
    by (auto simp: b_def word_sle_eq word_sless_alt)
qed

lemma sss0_simps:
  "nr_cpu_ids sss0 = 2" "cpu_active_mask sss0 = (\<lambda>c. c < 2)" "this_cpu sss0 = 0"
  "cpus_ptr task0 = (\<lambda>c. c < 2)" "on_rq_queued task0 = False" "normal_prio task0 = 120"
  by (simp_all add: sss0_def task0_def)

lemma fair_candidates_sss0:
  "fair_candidates sss0 task0 = [0, 1]"
  by (simp_all add: fair_candidates_def sss0_simps for_each_cpu_2 cpumask_and_def)

lemma not_empty_sss0:
  "\<not> cpumask_empty (nr_cpu_ids sss0) (cpumask_and (cpus_ptr task0) (cpu_active_mask sss0))"
  using fair_candidates_sss0 by (simp_all add: cpumask_empty_def fair_candidates_def)

lemma no_fast_path_sss0:
  "\<not> fair_fast_path host0 sss0 task0 0"
  by (simp_all add: fair_fast_path_def)

lemma fair_score_sss0:
  "fair_score host0 sss0 task0 0 0 0 = - 976" "fair_score host0 sss0 task0 0 0 1 = - 476"
  "fair_score host0 sss0 task0 0 0 (Suc 0) = - 476"
  by (simp_all add: fair_score_def fair_factor_def Let_def sss0_def task0_def entity0_def
      host0_def SSS_MARGIN_def SSS_FACTOR_def word_sless_alt)

lemma fair_select_task_cpu0:
  "fair_candidates sss0 task_cpu0 = [0]"
  "sss_select_task_rq_fair host0 sss0 task_cpu0 1 0 = 1"
proof -
  show c: "fair_candidates sss0 task_cpu0 = [0]"
    by (simp add: fair_candidates_def sss0_simps for_each_cpu_2 cpumask_and_def task_cpu0_def)
  have s: "fair_score host0 sss0 task_cpu0 (Suc 0) 0 0 = - 976"
    by (simp add: fair_score_def fair_factor_def Let_def sss0_def task_cpu0_def task0_def
        entity0_def host0_def SSS_MARGIN_def SSS_FACTOR_def word_sless_alt)
  have e: "\<not> cpumask_empty (nr_cpu_ids sss0)
      (cpumask_and (cpus_ptr task_cpu0) (cpu_active_mask sss0))"
    using c by (simp add: cpumask_empty_def fair_candidates_def)
  have f: "\<not> fair_fast_path host0 sss0 task_cpu0 0" by (simp add: fair_fast_path_def)
  show "sss_select_task_rq_fair host0 sss0 task_cpu0 1 0 = 1"
    using e f c
    by (simp add: sss_select_task_rq_fair_def Let_def fair_pick_def s word_sless_alt
        flip: fair_candidates_def)
qed

text \<open>
  C6. The claim is that, when the candidate set is not empty and the fast path is not
  taken, \<open>sss_select_task_rq_fair\<close> returns the candidate with the highest score (the
  one evaluated first among equals), as the comment at the comparison says ("the cpu
  with the highest remaining capacity, wins"). The code does not: the default starts
  with the factor 0 instead of the score of the previous CPU, so on a wakeup that is
  not \<open>WF_TTWU\<close>, with both candidates overloaded (scores \<open>-976\<close> on CPU 0 and \<open>-476\<close> on
  CPU 1) and previous CPU 0, it returns CPU 0 although candidate 1 scores strictly
  higher; and for a task allowed on CPU 0 only, with previous CPU 1, it returns CPU 1,
  which is not a candidate.
\<close>

theorem fair_select_saturated:
  "fair_candidates sss0 task0 = [0, 1] \<and>
   (0 :: 32 word) AND WF_TTWU host0 = 0 \<and>
   fair_score host0 sss0 task0 0 0 0 = - 976 \<and>
   fair_score host0 sss0 task0 0 0 1 = - 476 \<and>
   fair_score host0 sss0 task0 0 0 0 <s fair_score host0 sss0 task0 0 0 1 \<and>
   sss_select_task_rq_fair host0 sss0 task0 0 0 = 0 \<and>
   fair_candidates sss0 task_cpu0 = [0] \<and>
   sss_select_task_rq_fair host0 sss0 task_cpu0 1 0 = 1"
proof -
  have "sss_select_task_rq_fair host0 sss0 task0 0 0 = 0"
    using not_empty_sss0 no_fast_path_sss0 fair_candidates_sss0
    by (simp add: sss_select_task_rq_fair_def Let_def fair_pick_def fair_score_sss0
        word_sless_alt flip: fair_candidates_def)
  moreover have "sss_select_task_rq_fair host0 sss0 task_cpu0 1 0 = 1"
    by (rule fair_select_task_cpu0)
  ultimately show ?thesis
    using fair_select_task_cpu0(1)
    by (simp add: fair_candidates_sss0 fair_score_sss0 word_sless_alt)
qed
















text \<open>
  C10. \<open>sss_rt_add_factor\<close> followed by \<open>sss_rt_sub_factor\<close> with the same arguments
  leaves the bank (and the whole state) unchanged; the one adds and the other subtracts
  \<open>MAX_RT_PRIO - normal_prio\<close> on the counter of the CPU.
\<close>

theorem sss_rt_add_sub_factor_inverse:
  "sss_rt_sub_factor K c prio (sss_rt_add_factor K c prio E) = E \<and>
   sss_rt_factor_bank (sss_rt_add_factor K c prio E) c =
     sss_rt_factor_bank E c + (MAX_RT_PRIO K - prio) \<and>
   sss_rt_factor_bank (sss_rt_sub_factor K c prio E) c =
     sss_rt_factor_bank E c - (MAX_RT_PRIO K - prio)"
  by (simp add: sss_rt_sub_factor_def sss_rt_add_factor_def)

end
